theory Spec2Isabelle
  imports Complex_Main "HOL-Library.Multiset" "HOL-Library.Sublist"
begin

section \<open>JavaScript values and arrays\<close>

text \<open>
  The values that flow through \<^verbatim>\<open>src/App.jsx\<close> are card strings such as \<^verbatim>\<open>"As"\<close>, the
  blank string \<^verbatim>\<open>""\<close> of an unfilled slot, and \<^verbatim>\<open>undefined\<close>, which a read past the end
  of an array yields. The player count is an integer. Every other number is a double:
  a real number, with the rounding of each division, multiplication and addition written
  out.
\<close>

datatype jsval = Undefined | Str string

text \<open>\<^verbatim>\<open>Boolean(v)\<close> and \<^verbatim>\<open>!v\<close>: \<^verbatim>\<open>undefined\<close> and \<^verbatim>\<open>""\<close> are falsy, every other string is truthy.\<close>

fun truthy :: "jsval \<Rightarrow> bool" where
  "truthy Undefined = False"
| "truthy (Str s) = (s \<noteq> [])"

text \<open>\<^verbatim>\<open>arr[i]\<close>: a read out of range is \<^verbatim>\<open>undefined\<close>.\<close>

definition js_get :: "jsval list \<Rightarrow> nat \<Rightarrow> jsval" where
  "js_get arr i = (if i < length arr then arr ! i else Undefined)"

text \<open>
  \<^verbatim>\<open>arr[i] = v\<close>: a write past the end extends the array; the slots in between are
  holes, which read as \<^verbatim>\<open>undefined\<close>.
\<close>

definition js_set :: "jsval list \<Rightarrow> nat \<Rightarrow> jsval \<Rightarrow> jsval list" where
  "js_set arr i v =
     (if i < length arr then arr[i := v]
      else arr @ replicate (i - length arr) Undefined @ [v])"

section \<open>Double precision\<close>

text \<open>
  IEEE 754 binary64 arithmetic: the exact result of an operation, rounded to the nearest
  number with a 53-bit significand, a tie going to the even significand. \<open>ulp x\<close> is the
  spacing of these numbers at \<open>x\<close>. The exponent is unbounded here, so \<open>fl\<close> is the
  rounding of JavaScript wherever the result is 0 or in the normal range, from
  \<open>2 ^ -1022\<close> up to \<open>2 ^ 1024\<close>. The rates and the equity of every iteration count from 1
  to \<open>2 ^ 53\<close> are there, and a product \<^verbatim>\<open>Math.random() * (i + 1)\<close> that lies below
  the normal range is exact, in JavaScript and here.
\<close>

definition round_even :: "real \<Rightarrow> int" where
  "round_even y =
     (let f = \<lfloor>y\<rfloor>; d = y - of_int f
      in if d < 1 / 2 then f else if 1 / 2 < d then f + 1 else if even f then f else f + 1)"

definition ulp :: "real \<Rightarrow> real" where
  "ulp x = 2 powr of_int (\<lfloor>log 2 \<bar>x\<bar>\<rfloor> - 52)"

definition fl :: "real \<Rightarrow> real" where
  "fl x = (if x = 0 then 0 else sgn x * of_int (round_even (\<bar>x\<bar> / ulp x)) * ulp x)"

section \<open>Cards and the deck (App.jsx, lines 4-10)\<close>

text \<open>The suits and the ranks are one-character strings.\<close>

definition SUITS :: "string list" where
  "SUITS = [[CHR ''s''], [CHR ''h''], [CHR ''d''], [CHR ''c'']]"

definition RANKS :: "string list" where
  "RANKS = [[CHR ''2''], [CHR ''3''], [CHR ''4''], [CHR ''5''], [CHR ''6''], [CHR ''7''], [CHR ''8''],
            [CHR ''9''], [CHR ''T''], [CHR ''J''], [CHR ''Q''], [CHR ''K''], [CHR ''A'']]"

text \<open>\<^verbatim>\<open>RANKS.flatMap((r) => SUITS.map((s) => r + s))\<close>\<close>

definition ALL_CARDS :: "jsval list" where
  "ALL_CARDS = concat (map (\<lambda>r. map (\<lambda>s. Str (r @ s)) SUITS) RANKS)"

text \<open>\<^verbatim>\<open>ALL_CARDS.filter((c) => !exclude.has(c))\<close>; the \<^verbatim>\<open>Set\<close> is a HOL set.\<close>

definition makeDeck :: "jsval set \<Rightarrow> jsval list" where
  "makeDeck exclude = filter (\<lambda>c. c \<notin> exclude) ALL_CARDS"

section \<open>The shuffle (App.jsx, lines 12-18)\<close>

text \<open>
  \<^verbatim>\<open>Math.random()\<close> is an explicit source: the \<open>k\<close>-th call returns \<open>rnd k\<close>, and every
  function that draws returns the number of calls made so far. \<^verbatim>\<open>Math.random\<close> returns
  a double in \<open>[0, 1)\<close>; the largest of them is \<open>1 - 2 ^ -53\<close>.
\<close>

type_synonym rand = "nat \<Rightarrow> real"

definition unit_source :: "rand \<Rightarrow> bool" where
  "unit_source rnd = (\<forall>k. 0 \<le> rnd k \<and> rnd k \<le> 1 - 1 / 2 ^ 53)"

text \<open>
  \<^verbatim>\<open>[arr[i], arr[j]] = [arr[j], arr[i]]\<close>: both reads happen first, then \<^verbatim>\<open>arr[i]\<close> is
  written, then \<^verbatim>\<open>arr[j]\<close>.
\<close>

definition swap :: "jsval list \<Rightarrow> nat \<Rightarrow> nat \<Rightarrow> jsval list" where
  "swap arr i j = (let a = js_get arr j; b = js_get arr i in js_set (js_set arr i a) j b)"

text \<open>
  \<^verbatim>\<open>Math.floor(Math.random() * (i + 1))\<close> at the \<open>k\<close>-th call of the source: the floor
  of the rounded product.
\<close>

definition pick :: "rand \<Rightarrow> nat \<Rightarrow> nat \<Rightarrow> nat" where
  "pick rnd k i = nat \<lfloor>fl (rnd k * real (i + 1))\<rfloor>"

text \<open>\<^verbatim>\<open>for (let i = ...; i > 0; i--)\<close>: the loop from \<open>i\<close> down to 1.\<close>

fun shuffle_loop :: "rand \<Rightarrow> nat \<Rightarrow> nat \<Rightarrow> jsval list \<Rightarrow> jsval list \<times> nat" where
  "shuffle_loop rnd k 0 arr = (arr, k)"
| "shuffle_loop rnd k (Suc i) arr =
     (let j = pick rnd k (Suc i) in shuffle_loop rnd (Suc k) i (swap arr (Suc i) j))"

text \<open>
  The loop starts at \<^verbatim>\<open>arr.length - 1\<close>. For the empty array that is \<open>-1\<close> in the source
  and \<open>0\<close> here; the loop body runs in neither.
\<close>

definition shuffleInPlace :: "rand \<Rightarrow> nat \<Rightarrow> jsval list \<Rightarrow> jsval list \<times> nat" where
  "shuffleInPlace rnd k arr = shuffle_loop rnd k (length arr - 1) arr"

section \<open>The simulation (App.jsx, lines 94-144)\<close>

datatype error = DuplicateCards | PlayersOutOfRange | MissingHoleCards

fun message :: "error \<Rightarrow> string" where
  "message DuplicateCards = ''Duplicate cards detected. Please fix your selections.''"
| "message PlayersOutOfRange = ''Players must be between 2 and 10.''"
| "message MissingHoleCards = ''Please choose both of your hole cards.''"

datatype outcome = Win | Tie | Loss

text \<open>Lines 113-115: the unknown slots of the board copy are filled left to right.\<close>

function fill_loop :: "jsval list \<Rightarrow> nat \<Rightarrow> jsval list \<Rightarrow> nat \<Rightarrow> jsval list \<times> nat" where
  "fill_loop deck i simBoard idx =
     (if i < 5 then
        (if \<not> truthy (js_get simBoard i)
         then fill_loop deck (i + 1) (js_set simBoard i (js_get deck idx)) (idx + 1)
         else fill_loop deck (i + 1) simBoard idx)
      else (simBoard, idx))"
  by pat_completeness auto
termination
  by (relation "measure (\<lambda>(deck, i, simBoard, idx). 5 - i)") auto

declare fill_loop.simps [simp del]

text \<open>Lines 117-122: two cards for each of the \<open>players - 1\<close> opponents.\<close>

function deal_loop ::
  "jsval list \<Rightarrow> int \<Rightarrow> nat \<Rightarrow> jsval list list \<Rightarrow> nat \<Rightarrow> jsval list list \<times> nat" where
  "deal_loop deck players p opponents idx =
     (if int p < players - 1 then
        (let c1 = js_get deck idx; c2 = js_get deck (idx + 1)
         in deal_loop deck players (p + 1) (opponents @ [[c1, c2]]) (idx + 2))
      else (opponents, idx))"
  by pat_completeness auto
termination
  by (relation "measure (\<lambda>(deck, players, p, opponents, idx). nat (players - 1 - int p))") auto

declare deal_loop.simps [simp del]

text \<open>Lines 111-122 of one trial: the completed board, the opponents, the final cursor.\<close>

definition deal :: "jsval list \<Rightarrow> int \<Rightarrow> jsval list \<Rightarrow> jsval list \<times> jsval list list \<times> nat" where
  "deal deck players board =
     (let (simBoard, idx) = fill_loop deck 0 board 0;
          (opponents, idx') = deal_loop deck players 0 [] idx
      in (simBoard, opponents, idx'))"

text \<open>
  Modelled from the spec: \<^verbatim>\<open>Hand.solve\<close> and \<^verbatim>\<open>Hand.winners\<close> come from the
  \<^verbatim>\<open>pokersolver\<close> package, which is not part of the repository. The hand evaluator is a
  parameter \<open>solve\<close> into a totally ordered type of hand ranks (section 4.3 of the
  spec: the rank totally orders hand strength, ties are equality). \<open>winners\<close> returns the
  hands of maximal rank in the order of its input (section 9: hero ties when hero is
  among the maximal set); a hand object is identified by its position in the input.
\<close>

definition winners :: "('r::linorder) list \<Rightarrow> nat list" where
  "winners hands = filter (\<lambda>i. \<forall>h \<in> set hands. h \<le> hands ! i) [0..<length hands]"

text \<open>
  Lines 127-136. \<^verbatim>\<open>heroHand\<close> is the object at position 0 of \<^verbatim>\<open>all\<close>, so
  \<^verbatim>\<open>winners[0] === heroHand\<close> compares a position with 0.
\<close>

definition classify :: "('r::linorder) \<Rightarrow> 'r list \<Rightarrow> outcome" where
  "classify heroHand oppHands =
     (let all = heroHand # oppHands; ws = winners all
      in if length ws = 1 then (if ws ! 0 = 0 then Win else Loss)
         else (if 0 \<in> set ws then Tie else Loss))"

text \<open>Lines 109-136: one trial, from the random cursor \<open>k\<close>.\<close>

definition trial ::
  "(jsval list \<Rightarrow> 'r::linorder) \<Rightarrow> int \<Rightarrow> jsval list \<Rightarrow> jsval list \<Rightarrow> jsval set \<Rightarrow> rand \<Rightarrow> nat
     \<Rightarrow> outcome \<times> nat" where
  "trial solve players hero board known rnd k =
     (let (deck, k') = shuffleInPlace rnd k (makeDeck known);
          (simBoard, opponents, idx) = deal deck players board;
          heroHand = solve (hero @ simBoard);
          oppHands = map (\<lambda>h. solve (h @ simBoard)) opponents
      in (classify heroHand oppHands, k'))"

text \<open>The counters \<^verbatim>\<open>wins\<close>, \<^verbatim>\<open>ties\<close>, \<^verbatim>\<open>losses\<close>.\<close>

type_synonym counts = "nat \<times> nat \<times> nat"

fun bump :: "outcome \<Rightarrow> counts \<Rightarrow> counts" where
  "bump Win (wins, ties, losses) = (wins + 1, ties, losses)"
| "bump Tie (wins, ties, losses) = (wins, ties + 1, losses)"
| "bump Loss (wins, ties, losses) = (wins, ties, losses + 1)"

text \<open>
  \<^verbatim>\<open>for (let t = 0; t < iterations; t++)\<close>, with the trial as a function of the cursor.
  \<^verbatim>\<open>iterations\<close> is a double and need not be whole. The counter \<open>t\<close> is a double
  too: it is exact up to \<open>2 ^ 53\<close>, and the properties of the loop are stated for
  iteration counts up to there (\<^verbatim>\<open>run\<close> passes at most 200000).
\<close>

function trials_loop ::
  "(nat \<Rightarrow> outcome \<times> nat) \<Rightarrow> real \<Rightarrow> nat \<Rightarrow> counts \<Rightarrow> nat \<Rightarrow> counts \<times> nat" where
  "trials_loop tr iterations t acc k =
     (if real t < iterations then
        (let (out, k') = tr k in trials_loop tr iterations (t + 1) (bump out acc) k')
      else (acc, k))"
  by pat_completeness auto
termination
  by (relation "measure (\<lambda>(tr, iterations, t, acc, k). nat (\<lceil>iterations\<rceil> - int t))")
     (auto simp: less_ceiling_iff)

declare trials_loop.simps [simp del]

text \<open>
  A JavaScript division whose result is a finite number; \<open>None\<close> stands for \<^verbatim>\<open>NaN\<close> and
  the infinities, which a division by zero gives.
\<close>

definition js_div :: "real \<Rightarrow> real \<Rightarrow> real option" where
  "js_div a b = (if b = 0 then None else Some (fl (a / b)))"

record result =
  win :: "real option"
  tie :: "real option"
  loss :: "real option"
  equity :: "real option"
  result_iterations :: real

text \<open>
  Lines 139-143. The field \<^verbatim>\<open>iterations\<close> of the returned object is \<open>result_iterations\<close>.
\<close>

definition rates :: "counts \<Rightarrow> real \<Rightarrow> result" where
  "rates c iterations =
     (case c of (wins, ties, losses) \<Rightarrow>
        let win = js_div (real wins) iterations;
            tie = js_div (real ties) iterations;
            loss = js_div (real losses) iterations;
            equity = (case (win, tie) of (Some w, Some t) \<Rightarrow> Some (fl (w + fl (t / 2))) | _ \<Rightarrow> None)
        in \<lparr>win = win, tie = tie, loss = loss, equity = equity, result_iterations = iterations\<rparr>)"

text \<open>
  The counters after the loop of lines 106-137, for a request that has passed the checks.
\<close>

definition run_trials ::
  "(jsval list \<Rightarrow> 'r::linorder) \<Rightarrow> rand \<Rightarrow> nat \<Rightarrow> int \<Rightarrow> jsval list \<Rightarrow> jsval list \<Rightarrow> real
     \<Rightarrow> counts \<times> nat" where
  "run_trials solve rnd k players hero board iterations =
     (let known = set (filter truthy (hero @ board))
      in trials_loop (trial solve players hero board known rnd) iterations 0 (0, 0, 0) k)"

text \<open>
  \<^verbatim>\<open>simulateEquity({ players, hero, board, iterations })\<close>. The result is the error thrown
  or the object returned, together with the cursor of the random source.
\<close>

definition simulateEquity ::
  "(jsval list \<Rightarrow> 'r::linorder) \<Rightarrow> rand \<Rightarrow> nat \<Rightarrow> int \<Rightarrow> jsval list \<Rightarrow> jsval list \<Rightarrow> real
     \<Rightarrow> (error + result) \<times> nat" where
  "simulateEquity solve rnd k players hero board iterations =
     (let known = set (filter truthy (hero @ board))
      in if card known \<noteq> length (filter truthy (hero @ board)) then (Inl DuplicateCards, k)
         else if players < 2 \<or> players > 10 then (Inl PlayersOutOfRange, k)
         else if \<not> truthy (js_get hero 0) \<or> \<not> truthy (js_get hero 1) then (Inl MissingHoleCards, k)
         else (let (c, k') = run_trials solve rnd k players hero board iterations
               in (Inr (rates c iterations), k')))"

section \<open>The caller (App.jsx, lines 166-188)\<close>

text \<open>
  The state \<^verbatim>\<open>iters\<close> is a number: \<^verbatim>\<open>NaN\<close>, an infinity or a finite double, which the
  input field lets be fractional.
\<close>

datatype jsnum = NaN | NegInfinity | Num real | PosInfinity

text \<open>
  \<^verbatim>\<open>Math.max(1000, Math.min(200000, Number(iters) || 0))\<close>: \<^verbatim>\<open>NaN\<close> and \<open>0\<close> are falsy.
\<close>

fun clamp_iterations :: "jsnum \<Rightarrow> real" where
  "clamp_iterations NaN = max 1000 (min 200000 0)"
| "clamp_iterations (Num n) = max 1000 (min 200000 (if n = 0 then 0 else n))"
| "clamp_iterations PosInfinity = max 1000 200000"
| "clamp_iterations NegInfinity = 1000"

text \<open>The call that \<^verbatim>\<open>run\<close> makes in its timer callback.\<close>

definition run ::
  "(jsval list \<Rightarrow> 'r::linorder) \<Rightarrow> rand \<Rightarrow> nat \<Rightarrow> int \<Rightarrow> jsval list \<Rightarrow> jsval list \<Rightarrow> jsnum
     \<Rightarrow> (error + result) \<times> nat" where
  "run solve rnd k players hero board iters =
     simulateEquity solve rnd k players hero board (clamp_iterations iters)"

section \<open>Specification vocabulary\<close>

text \<open>
  The outcomes of \<open>m\<close> successive trials from cursor \<open>k\<close>, in order, and the cursor after
  them: what the loop of lines 108-137 does, with the outcomes kept instead of counted.
\<close>

fun run_seq :: "(nat \<Rightarrow> outcome \<times> nat) \<Rightarrow> nat \<Rightarrow> nat \<Rightarrow> outcome list \<times> nat" where
  "run_seq tr 0 k = ([], k)"
| "run_seq tr (Suc m) k =
     (let (out, k') = tr k; (outs, k'') = run_seq tr m k' in (out # outs, k''))"

text \<open>
  A request passes validation when the player count is in \<open>[2, 10]\<close>, both hole cards
  are chosen, and no card occurs twice among the chosen cards of hero and board.
\<close>

definition valid_request :: "int \<Rightarrow> jsval list \<Rightarrow> jsval list \<Rightarrow> bool" where
  "valid_request players hero board \<longleftrightarrow>
     2 \<le> players \<and> players \<le> 10
     \<and> truthy (js_get hero 0) \<and> truthy (js_get hero 1)
     \<and> distinct (filter truthy (hero @ board))"

text \<open>The slots of the board that a trial has to fill: those among the first five that are blank.\<close>

definition unknown_slots :: "jsval list \<Rightarrow> nat list" where
  "unknown_slots board = filter (\<lambda>i. \<not> truthy (js_get board i)) [0..<5]"

section \<open>Vocabulary for the shuffle\<close>

text \<open>
  The indices that the loop from \<open>i\<close> down to 1 picks, in the order of the calls: the
  first for \<open>i\<close>, the last for 1.
\<close>

definition picks :: "rand \<Rightarrow> nat \<Rightarrow> nat \<Rightarrow> nat list" where
  "picks rnd k i = map (\<lambda>m. pick rnd (k + m) (i - m)) [0..<i]"

text \<open>The same loop, driven by a list of chosen indices instead of the random source.\<close>

fun shuffle_by :: "nat list \<Rightarrow> nat \<Rightarrow> jsval list \<Rightarrow> jsval list" where
  "shuffle_by js 0 arr = arr"
| "shuffle_by [] (Suc i) arr = arr"
| "shuffle_by (j # js) (Suc i) arr = shuffle_by js i (swap arr (Suc i) j)"

text \<open>
  Every list of choices that the loop from \<open>i\<close> can make: an index in \<open>0..i\<close>, then one
  in \<open>0..i - 1\<close>, down to one in \<open>0..1\<close>. If every step picked each of its indices
  with the same probability, independently, these lists would be equally likely.
\<close>

fun choice_vectors :: "nat \<Rightarrow> nat list list" where
  "choice_vectors 0 = [[]]"
| "choice_vectors (Suc i) = concat (map (\<lambda>j. map ((#) j) (choice_vectors i)) [0..<Suc i + 1])"


text \<open>The number of choice lists under which the loop from \<open>i\<close> turns \<open>arr\<close> into \<open>ys\<close>.\<close>

definition hits :: "nat \<Rightarrow> jsval list \<Rightarrow> jsval list \<Rightarrow> nat" where
  "hits i arr ys = length (filter (\<lambda>js. shuffle_by js i arr = ys) (choice_vectors i))"


text \<open>
  What the loop from \<open>i\<close> can produce: a rearrangement of the first \<open>i + 1\<close> entries, with
  the rest in place.
\<close>

definition reach :: "nat \<Rightarrow> jsval list \<Rightarrow> jsval list \<Rightarrow> bool" where
  "reach i arr ys \<longleftrightarrow>
     length ys = length arr
     \<and> mset (take (Suc i) ys) = mset (take (Suc i) arr)
     \<and> drop (Suc i) ys = drop (Suc i) arr"

section \<open>The simulation on a store of arrays\<close>

text \<open>
  JavaScript arrays are objects: \<^verbatim>\<open>hero\<close> and \<^verbatim>\<open>board\<close> are references that the caller
  keeps (they are React state), and a write through an alias would change the caller's
  array. Here every array that is an input or is written by index lives in a store, at a
  reference; \<^verbatim>\<open>filter\<close> and \<^verbatim>\<open>slice\<close> allocate a new array, an indexed assignment
  writes the array at the reference it is given. Arrays that are only built and read
  (the spreads passed to \<^verbatim>\<open>Hand.solve\<close>, the opponents' pairs) stay values. The
  functions are those of the sections above, line by line, with the store passed along.
\<close>

type_synonym ref = nat

record store =
  cells :: "ref \<Rightarrow> jsval list"
  next_ref :: ref

text \<open>
  A new array: the next free reference, and the store with the array there.
\<close>

definition alloc :: "jsval list \<Rightarrow> store \<Rightarrow> ref \<times> store" where
  "alloc xs s = (next_ref s, s\<lparr>cells := (cells s)(next_ref s := xs), next_ref := Suc (next_ref s)\<rparr>)"

text \<open>
  \<^verbatim>\<open>arr[i] = v\<close> on the array at reference \<open>r\<close>.
\<close>

definition write_index :: "ref \<Rightarrow> nat \<Rightarrow> jsval \<Rightarrow> store \<Rightarrow> store" where
  "write_index r i v s = s\<lparr>cells := (cells s)(r := js_set (cells s r) i v)\<rparr>"

text \<open>
  \<^verbatim>\<open>makeDeck\<close>: \<^verbatim>\<open>ALL_CARDS.filter(...)\<close> returns a new array; \<^verbatim>\<open>ALL_CARDS\<close> itself is never written.
\<close>

definition makeDeck_st :: "jsval set \<Rightarrow> store \<Rightarrow> ref \<times> store" where
  "makeDeck_st exclude s = alloc (filter (\<lambda>c. c \<notin> exclude) ALL_CARDS) s"

text \<open>
  \<^verbatim>\<open>arr.slice()\<close>: a new array with the same entries.
\<close>

definition slice_st :: "ref \<Rightarrow> store \<Rightarrow> ref \<times> store" where
  "slice_st r s = alloc (cells s r) s"

text \<open>
  \<^verbatim>\<open>shuffleInPlace\<close> writes the array it is given: both reads of the exchange, then the two writes.
\<close>

fun shuffle_loop_st :: "rand \<Rightarrow> nat \<Rightarrow> nat \<Rightarrow> ref \<Rightarrow> store \<Rightarrow> store \<times> nat" where
  "shuffle_loop_st rnd k 0 arr s = (s, k)"
| "shuffle_loop_st rnd k (Suc i) arr s =
     (let j = pick rnd k (Suc i);
          a = js_get (cells s arr) j;
          b = js_get (cells s arr) (Suc i);
          s1 = write_index arr (Suc i) a s;
          s2 = write_index arr j b s1
      in shuffle_loop_st rnd (Suc k) i arr s2)"

definition shuffleInPlace_st :: "rand \<Rightarrow> nat \<Rightarrow> ref \<Rightarrow> store \<Rightarrow> store \<times> nat" where
  "shuffleInPlace_st rnd k arr s = shuffle_loop_st rnd k (length (cells s arr) - 1) arr s"

text \<open>
  Lines 113-115 on the references of the deck and of the board copy.
\<close>

function fill_loop_st :: "ref \<Rightarrow> nat \<Rightarrow> ref \<Rightarrow> nat \<Rightarrow> store \<Rightarrow> nat \<times> store" where
  "fill_loop_st deck i simBoard idx s =
     (if i < 5 then
        (if \<not> truthy (js_get (cells s simBoard) i)
         then fill_loop_st deck (i + 1) simBoard (idx + 1)
                (write_index simBoard i (js_get (cells s deck) idx) s)
         else fill_loop_st deck (i + 1) simBoard idx s)
      else (idx, s))"
  by pat_completeness auto
termination
  by (relation "measure (\<lambda>(deck, i, simBoard, idx, s). 5 - i)") auto

declare fill_loop_st.simps [simp del]

text \<open>
  Lines 109-136: the deck is \<^verbatim>\<open>makeDeck(known).slice()\<close>, shuffled in place; the board is
  copied by \<^verbatim>\<open>board.slice()\<close> and the copy is filled; the opponents loop only reads the deck.
\<close>

definition trial_st ::
  "(jsval list \<Rightarrow> 'r::linorder) \<Rightarrow> int \<Rightarrow> ref \<Rightarrow> ref \<Rightarrow> jsval set \<Rightarrow> rand \<Rightarrow> nat \<Rightarrow> store
     \<Rightarrow> outcome \<times> nat \<times> store" where
  "trial_st solve players hero board known rnd k s =
     (let (made, s1) = makeDeck_st known s;
          (deck, s2) = slice_st made s1;
          (s3, k') = shuffleInPlace_st rnd k deck s2;
          (simBoard, s4) = slice_st board s3;
          (idx, s5) = fill_loop_st deck 0 simBoard 0 s4;
          (opponents, idx') = deal_loop (cells s5 deck) players 0 [] idx;
          heroHand = solve (cells s5 hero @ cells s5 simBoard);
          oppHands = map (\<lambda>h. solve (h @ cells s5 simBoard)) opponents
      in (classify heroHand oppHands, k', s5))"

text \<open>
  Lines 108-137, the store threaded through the trials.
\<close>

function trials_loop_st ::
  "(nat \<Rightarrow> store \<Rightarrow> outcome \<times> nat \<times> store) \<Rightarrow> real \<Rightarrow> nat \<Rightarrow> counts \<Rightarrow> nat \<Rightarrow> store
     \<Rightarrow> counts \<times> nat \<times> store" where
  "trials_loop_st tr iterations t acc k s =
     (if real t < iterations then
        (let (out, k', s') = tr k s in trials_loop_st tr iterations (t + 1) (bump out acc) k' s')
      else (acc, k, s))"
  by pat_completeness auto
termination
  by (relation "measure (\<lambda>(tr, iterations, t, acc, k, s). nat (\<lceil>iterations\<rceil> - int t))")
     (auto simp: less_ceiling_iff)

declare trials_loop_st.simps [simp del]

text \<open>
  \<^verbatim>\<open>simulateEquity\<close> on references to the caller's arrays: the thrown error or the
  returned object, the random cursor and the store afterwards.
\<close>

definition simulateEquity_st ::
  "(jsval list \<Rightarrow> 'r::linorder) \<Rightarrow> rand \<Rightarrow> nat \<Rightarrow> int \<Rightarrow> ref \<Rightarrow> ref \<Rightarrow> real \<Rightarrow> store
     \<Rightarrow> (error + result) \<times> nat \<times> store" where
  "simulateEquity_st solve rnd k players hero board iterations s =
     (let known = set (filter truthy (cells s hero @ cells s board))
      in if card known \<noteq> length (filter truthy (cells s hero @ cells s board))
         then (Inl DuplicateCards, k, s)
         else if players < 2 \<or> players > 10 then (Inl PlayersOutOfRange, k, s)
         else if \<not> truthy (js_get (cells s hero) 0) \<or> \<not> truthy (js_get (cells s hero) 1)
         then (Inl MissingHoleCards, k, s)
         else (let (c, k', s') =
                     trials_loop_st (trial_st solve players hero board known rnd) iterations 0 (0, 0, 0) k s
               in (Inr (rates c iterations), k', s')))"

section \<open>A staged run\<close>

text \<open>
  A hand evaluator that ranks a hand by its first card alone, and a random source made of
  two doubles, for runs whose outcomes can be read off. With seven known cards a trial
  shuffles 45 cards and reads the source 44 times: \<open>127 / 128\<close> leaves the current element
  where it is, \<open>0\<close> exchanges it with the first one.
\<close>

definition first_card_rank :: "jsval list \<Rightarrow> nat" where
  "first_card_rank cs =
     (if js_get cs 0 = Str ''2s'' then 0 else if js_get cs 0 = Str ''2d'' then 2 else 1)"

definition staged_source :: rand where
  "staged_source k =
     (let t = k div 44; m = k mod 44
      in if (m = 43 \<and> 63 \<le> t \<and> t < 646) \<or> (m = 42 \<and> 646 \<le> t) then 0 else 127 / 128)"

section \<open>A uniform source of doubles\<close>

text \<open>
  The doubles \<open>m / 2 ^ b\<close> of \<open>[0, 1)\<close>, for \<open>b\<close> up to 53: a uniform source returns each
  of them equally often, and successive calls are independent. \<open>index_count\<close> is the
  number of them under which the step at index \<open>i\<close> picks \<open>j\<close>; \<open>order_count\<close> is the
  number of pairs of them, for the two calls that shuffling three elements makes, under
  which \<open>arr\<close> comes out as \<open>ys\<close>.
\<close>

definition doubles :: "nat \<Rightarrow> real set" where
  "doubles b = (\<lambda>m. real m / 2 ^ b) ` {..<2 ^ b}"

definition index_count :: "nat \<Rightarrow> nat \<Rightarrow> nat \<Rightarrow> nat" where
  "index_count b i j = card {x \<in> doubles b. pick (\<lambda>k. x) 0 i = j}"

definition order_count :: "nat \<Rightarrow> jsval list \<Rightarrow> jsval list \<Rightarrow> nat" where
  "order_count b arr ys =
     card {(x, y). x \<in> doubles b \<and> y \<in> doubles b
                   \<and> fst (shuffleInPlace (\<lambda>k. if k = 0 then x else y) 0 arr) = ys}"

section \<open>Properties of the rounding\<close>

lemma round_even_err: "\<bar>of_int (round_even y) - y\<bar> \<le> 1 / 2"
  unfolding round_even_def Let_def by (auto simp: abs_le_iff)

lemma round_even_int: "round_even (of_int m) = m"
  by (simp add: round_even_def)

lemma round_even_nonneg: "0 \<le> y \<Longrightarrow> 0 \<le> round_even y"
  unfolding round_even_def Let_def by (auto simp: not_less) 

lemma round_even_le:
  assumes "y < of_int N"
  shows "round_even y \<le> N"
proof -
  from assms have "\<lfloor>y\<rfloor> < N" by (simp add: floor_less_iff)
  then show ?thesis
    unfolding round_even_def Let_def by auto
qed

lemma round_even_tie:
  assumes "of_int N \<le> y" and "y \<le> of_int N + 1 / 2" and "even N"
  shows "round_even y = N"
proof -
  from assms have f: "\<lfloor>y\<rfloor> = N" by (simp add: floor_eq_iff)
  show ?thesis
    unfolding round_even_def Let_def f using assms by auto
qed

lemma ulp_pos: "0 < ulp x"
  by (simp add: ulp_def)

lemma expo_bounds:
  assumes "0 < x"
  shows "2 powr of_int \<lfloor>log 2 x\<rfloor> \<le> x" and "x < 2 powr of_int (\<lfloor>log 2 x\<rfloor> + 1)"
proof -
  have "of_int \<lfloor>log 2 x\<rfloor> \<le> log 2 x" by simp
  then show "2 powr of_int \<lfloor>log 2 x\<rfloor> \<le> x"
    using assms by (simp add: powr_le_iff)
  have "log 2 x < of_int (\<lfloor>log 2 x\<rfloor> + 1)" by linarith
  then show "x < 2 powr of_int (\<lfloor>log 2 x\<rfloor> + 1)"
    using assms by (simp add: less_powr_iff)
qed

lemma expo_eq:
  assumes "0 < x" and "2 powr of_int k \<le> x" and "x < 2 powr of_int (k + 1)"
  shows "\<lfloor>log 2 x\<rfloor> = k"
proof -
  from assms have "of_int k \<le> log 2 x"
    by (simp add: powr_le_iff)
  moreover from assms have "log 2 x < of_int (k + 1)"
    by (simp add: less_powr_iff)
  ultimately show ?thesis
    by (simp add: floor_eq_iff)
qed

lemma round_even_ge:
  assumes "of_int N \<le> y"
  shows "N \<le> round_even y"
proof -
  from assms have "N \<le> \<lfloor>y\<rfloor>" by (simp add: le_floor_iff)
  then show ?thesis
    unfolding round_even_def Let_def by auto
qed

lemma ulp_eq:
  assumes "0 < x"
  shows "ulp x = 2 powr of_int \<lfloor>log 2 x\<rfloor> / 2 ^ 52"
proof -
  have "ulp x = 2 powr (of_int \<lfloor>log 2 x\<rfloor> - 52)"
    using assms by (simp add: ulp_def)
  also have "\<dots> = 2 powr of_int \<lfloor>log 2 x\<rfloor> / 2 powr 52"
    by (rule powr_diff)
  finally show ?thesis by simp
qed

lemma scaled_bounds:
  assumes "0 < x"
  shows "2 ^ 52 \<le> x / ulp x" and "x / ulp x < 2 ^ 53"
proof -
  let ?b = "2 powr of_int \<lfloor>log 2 x\<rfloor> :: real"
  have b: "0 < ?b" by simp
  have lo: "?b \<le> x" and hi: "x < 2 * ?b"
    using expo_bounds [OF assms] by (simp_all add: powr_add)
  have u: "x / ulp x = x * 2 ^ 52 / ?b"
    by (simp add: ulp_eq [OF assms])
  show "2 ^ 52 \<le> x / ulp x"
    unfolding u using lo b by (simp add: pos_le_divide_eq)
  show "x / ulp x < 2 ^ 53"
    unfolding u using hi b by (simp add: pos_divide_less_eq)
qed

lemma fl_pos_eq:
  assumes "0 < x"
  shows "fl x = of_int (round_even (x / ulp x)) * ulp x"
  using assms by (simp add: fl_def)

lemma fl_err:
  assumes "0 < x"
  shows "\<bar>fl x - x\<bar> \<le> x / 2 ^ 53"
proof -
  let ?u = "ulp x"
  have up: "0 < ?u" by (rule ulp_pos)
  have "\<bar>fl x - x\<bar> = \<bar>of_int (round_even (x / ?u)) - x / ?u\<bar> * ?u"
  proof -
    have "fl x - x = (of_int (round_even (x / ?u)) - x / ?u) * ?u"
      using up by (simp add: fl_pos_eq [OF assms] left_diff_distrib)
    then show ?thesis
      using up by (simp add: abs_mult)
  qed
  also have "\<dots> \<le> 1 / 2 * ?u"
    using round_even_err [of "x / ?u"] up by (intro mult_right_mono) simp_all
  also have "\<dots> \<le> x / 2 ^ 53"
  proof -
    have "2 ^ 52 * ?u \<le> x"
      using scaled_bounds(1) [OF assms] up by (simp add: pos_le_divide_eq)
    then show ?thesis by simp
  qed
  finally show ?thesis .
qed

lemma fl_nonneg:
  assumes "0 \<le> x"
  shows "0 \<le> fl x"
proof (cases "x = 0")
  case True
  then show ?thesis by (simp add: fl_def)
next
  case False
  with assms have x: "0 < x" by simp
  have "0 \<le> round_even (x / ulp x)"
    using x ulp_pos [of x] by (intro round_even_nonneg) simp
  then show ?thesis
    using ulp_pos [of x] by (simp add: fl_pos_eq [OF x])
qed

lemma fl_le_one:
  assumes "0 \<le> y" and "y \<le> 1 + 1 / 2 ^ 53"
  shows "fl y \<le> 1"
proof (cases "y = 0")
  case True
  then show ?thesis by (simp add: fl_def)
next
  case False
  with assms have y: "0 < y" by simp
  show ?thesis
  proof (cases "y < 1")
    case True
    let ?b = "2 powr of_int \<lfloor>log 2 y\<rfloor> :: real"
    have "log 2 y < 0"
      using y True by simp
    then have "\<lfloor>log 2 y\<rfloor> + 1 \<le> 0"
      by linarith
    then have "(2::real) powr of_int (\<lfloor>log 2 y\<rfloor> + 1) \<le> 2 powr 0"
      by (intro powr_mono) simp_all
    then have b2: "2 * ?b \<le> 1"
      by (simp add: powr_add)
    have "round_even (y / ulp y) \<le> 2 ^ 53"
      using scaled_bounds(2) [OF y] by (intro round_even_le) simp
    then have "(of_int (round_even (y / ulp y)) :: real) \<le> 2 ^ 53"
      by (metis of_int_le_iff of_int_numeral of_int_power)
    then have "fl y \<le> 2 ^ 53 * ulp y"
      unfolding fl_pos_eq [OF y] using ulp_pos [of y] by (intro mult_right_mono) simp_all
    also have "\<dots> = 2 * ?b"
      by (simp add: ulp_eq [OF y])
    finally show ?thesis using b2 by simp
  next
    case False
    then have y1: "1 \<le> y" by simp
    from assms(2) have y2: "y < 2"
      by (rule le_less_trans) simp
    have e: "\<lfloor>log 2 y\<rfloor> = 0"
      using y1 y2 by (intro expo_eq [OF y]) simp_all
    have u: "ulp y = 1 / 2 ^ 52"
      by (simp add: ulp_eq [OF y] e)
    have "round_even (y / ulp y) = 2 ^ 52"
    proof (rule round_even_tie)
      show "real_of_int (2 ^ 52) \<le> y / ulp y"
        using y1 by (simp add: u)
      have "y * 2 ^ 52 \<le> (1 + 1 / 2 ^ 53) * 2 ^ 52"
        using assms(2) by (intro mult_right_mono) simp_all
      then show "y / ulp y \<le> real_of_int (2 ^ 52) + 1 / 2"
        by (simp add: u)
      show "even (2 ^ 52 :: int)" by simp
    qed
    then show ?thesis
      by (simp add: fl_pos_eq [OF y] u)
  qed
qed

lemma fl_repr:
  assumes "2 ^ 52 \<le> r" and "r \<le> 2 ^ 53"
  shows "fl (of_int r * 2 powr of_int k) = of_int r * 2 powr of_int k"
proof -
  let ?p = "2 powr of_int k :: real"
  let ?v = "of_int r * ?p"
  have p: "0 < ?p" by simp
  from assms(1) have r0: "(2 ^ 52 :: real) \<le> of_int r"
    by (metis of_int_le_iff of_int_numeral of_int_power)
  from assms(2) have r1: "of_int r \<le> (2 ^ 53 :: real)"
    by (metis of_int_le_iff of_int_numeral of_int_power)
  from r0 have rp: "(0::real) < of_int r"
    by (rule less_le_trans [rotated]) simp
  have v: "0 < ?v" using rp p by simp
  show ?thesis
  proof (cases "r = 2 ^ 53")
    case False
    with assms(2) have "r < 2 ^ 53" by simp
    then have r2: "of_int r < (2 ^ 53 :: real)"
      by (metis of_int_less_iff of_int_numeral of_int_power)
    have "\<lfloor>log 2 ?v\<rfloor> = k + 52"
    proof (rule expo_eq [OF v])
      have "2 powr of_int (k + 52) = 2 ^ 52 * ?p"
        by (simp add: powr_add)
      also have "\<dots> \<le> ?v"
        using r0 p by (intro mult_right_mono) simp_all
      finally show "2 powr of_int (k + 52) \<le> ?v" .
      have "?v < 2 ^ 53 * ?p"
        using r2 p by (intro mult_strict_right_mono)
      also have "\<dots> = 2 powr of_int (k + 52 + 1)"
        by (simp add: powr_add)
      finally show "?v < 2 powr of_int (k + 52 + 1)" .
    qed
    then have u: "ulp ?v = ?p"
      by (simp add: ulp_eq [OF v] powr_add)
    show ?thesis
      unfolding fl_pos_eq [OF v] u using p by (simp add: round_even_int)
  next
    case True
    have vv: "?v = 2 powr of_int (k + 53)"
      by (simp add: True powr_add)
    have "\<lfloor>log 2 ?v\<rfloor> = k + 53"
      unfolding vv by (intro expo_eq) (simp_all add: powr_add)
    then have u: "ulp ?v = 2 * ?p"
      by (simp add: ulp_eq [OF v] powr_add)
    have "?v / (2 * ?p) = of_int (2 ^ 52)"
      using p by (simp add: True)
    then have "round_even (?v / (2 * ?p)) = 2 ^ 52"
      by (simp only: round_even_int)
    then show ?thesis
      unfolding fl_pos_eq [OF v] u by (simp add: True)
  qed
qed

lemma fl_form:
  assumes "0 < x"
  shows "\<exists>r k. fl x = of_int r * 2 powr of_int k \<and> 2 ^ 52 \<le> r \<and> r \<le> 2 ^ 53"
proof -
  let ?r = "round_even (x / ulp x)"
  have lo: "of_int (2 ^ 52) \<le> x / ulp x" and hi: "x / ulp x < of_int (2 ^ 53)"
    using scaled_bounds [OF assms] by simp_all
  have "2 ^ 52 \<le> ?r"
    using lo by (rule round_even_ge)
  moreover have "?r \<le> 2 ^ 53"
    using hi by (rule round_even_le)
  moreover have "fl x = of_int ?r * 2 powr of_int (\<lfloor>log 2 x\<rfloor> - 52)"
    using assms by (simp add: fl_pos_eq ulp_def)
  ultimately show ?thesis by blast
qed

lemma fl_idem: "fl (fl x) = fl x" if "0 \<le> x"
proof (cases "x = 0")
  case True
  then show ?thesis by (simp add: fl_def)
next
  case False
  with that have "0 < x" by simp
  from fl_form [OF this] obtain r k where "fl x = of_int r * 2 powr of_int k"
    and "2 ^ 52 \<le> r" and "r \<le> 2 ^ 53"
    by blast
  then show ?thesis
    using fl_repr [of r k] by simp
qed

lemma fl_half:
  assumes "0 \<le> x"
  shows "fl (fl x / 2) = fl x / 2"
proof (cases "x = 0")
  case True
  then show ?thesis by (simp add: fl_def)
next
  case False
  with assms have "0 < x" by simp
  from fl_form [OF this] obtain r k where f: "fl x = of_int r * 2 powr of_int k"
    and r: "2 ^ 52 \<le> r" "r \<le> 2 ^ 53"
    by blast
  have "fl x / 2 = of_int r * 2 powr of_int (k - 1)"
    by (simp add: f powr_diff)
  then show ?thesis
    using fl_repr [OF r, of "k - 1"] by simp
qed

lemma fl_eval:
  assumes "1 \<le> x * 2 ^ p" and "x * 2 ^ p < 2"
  shows "fl x = of_int (round_even (x * 2 ^ (52 + p))) / 2 ^ (52 + p)"
proof -
  have x: "0 < x"
  proof (rule ccontr)
    assume "\<not> 0 < x"
    then have "x * 2 ^ p \<le> 0" by (simp add: mult_le_0_iff)
    with assms(1) show False by simp
  qed
  have pw: "2 powr of_int (- int p) = 1 / (2 ^ p :: real)"
    by (simp add: powr_minus powr_realpow divide_inverse)
  have "\<lfloor>log 2 x\<rfloor> = - int p"
  proof (rule expo_eq [OF x])
    show "2 powr of_int (- int p) \<le> x"
      unfolding pw using assms(1) by (simp add: pos_divide_le_eq)
    have "2 powr of_int (- int p + 1) = 2 powr of_int (- int p) * (2::real) powr 1"
      by (simp only: of_int_add powr_add of_int_1)
    then have "2 powr of_int (- int p + 1) = 2 / (2 ^ p :: real)"
      unfolding pw by simp
    then show "x < 2 powr of_int (- int p + 1)"
      using assms(2) by (simp add: pos_less_divide_eq)
  qed
  then have u: "ulp x = 1 / 2 ^ (52 + p)"
    using pw by (simp add: ulp_eq [OF x] power_add)
  show ?thesis
    unfolding fl_pos_eq [OF x] u by simp
qed


lemma fl_zero: "fl 0 = 0"
  by (simp add: fl_def)

lemma fl_err0:
  assumes "0 \<le> x"
  shows "\<bar>fl x - x\<bar> \<le> x / 2 ^ 53"
proof (cases "x = 0")
  case True
  then show ?thesis by (simp add: fl_zero)
next
  case False
  with assms have "0 < x" by simp
  then show ?thesis by (rule fl_err)
qed

section \<open>Properties of the deck\<close>

lemma ALL_CARDS_unfold:
  "ALL_CARDS =
    [Str ''2s'', Str ''2h'', Str ''2d'', Str ''2c'', Str ''3s'', Str ''3h'', Str ''3d'', Str ''3c'',
     Str ''4s'', Str ''4h'', Str ''4d'', Str ''4c'', Str ''5s'', Str ''5h'', Str ''5d'', Str ''5c'',
     Str ''6s'', Str ''6h'', Str ''6d'', Str ''6c'', Str ''7s'', Str ''7h'', Str ''7d'', Str ''7c'',
     Str ''8s'', Str ''8h'', Str ''8d'', Str ''8c'', Str ''9s'', Str ''9h'', Str ''9d'', Str ''9c'',
     Str ''Ts'', Str ''Th'', Str ''Td'', Str ''Tc'', Str ''Js'', Str ''Jh'', Str ''Jd'', Str ''Jc'',
     Str ''Qs'', Str ''Qh'', Str ''Qd'', Str ''Qc'', Str ''Ks'', Str ''Kh'', Str ''Kd'', Str ''Kc'',
     Str ''As'', Str ''Ah'', Str ''Ad'', Str ''Ac'']"
  by (simp add: ALL_CARDS_def RANKS_def SUITS_def)

lemma length_ALL_CARDS: "length ALL_CARDS = 52"
  by (simp add: ALL_CARDS_unfold)

lemma distinct_ALL_CARDS: "distinct ALL_CARDS"
  by (simp add: ALL_CARDS_unfold)

lemma truthy_ALL_CARDS: "c \<in> set ALL_CARDS \<Longrightarrow> truthy c"
  by (auto simp: ALL_CARDS_def RANKS_def SUITS_def)

lemma nth_concat_rows:
  assumes "\<forall>x \<in> set xs. length (f x) = m" and "r < length xs" and "s < m"
  shows "concat (map f xs) ! (m * r + s) = f (xs ! r) ! s"
  using assms
proof (induction xs arbitrary: r)
  case Nil
  then show ?case by simp
next
  case (Cons x xs)
  show ?case
  proof (cases r)
    case 0
    with Cons.prems show ?thesis
      by (simp add: nth_append)
  next
    case (Suc r')
    with Cons.prems have "concat (map f xs) ! (m * r' + s) = f (xs ! r') ! s"
      by (intro Cons.IH) auto
    moreover have "m * r + s - m = m * r' + s" and "\<not> m * r + s < m"
      using Suc by simp_all
    ultimately show ?thesis
      using Cons.prems(1) Suc by (simp add: nth_append)
  qed
qed

lemma ALL_CARDS_rank_major:
  assumes "r < length RANKS" and "s < length SUITS"
  shows "ALL_CARDS ! (length SUITS * r + s) = Str (RANKS ! r @ SUITS ! s)"
proof -
  have "ALL_CARDS ! (length SUITS * r + s) = map (\<lambda>s. Str (RANKS ! r @ s)) SUITS ! s"
    unfolding ALL_CARDS_def using assms by (intro nth_concat_rows) simp_all
  with assms(2) show ?thesis by simp
qed

lemma distinct_makeDeck: "distinct (makeDeck K)"
  by (simp add: makeDeck_def distinct_ALL_CARDS)

lemma set_makeDeck: "set (makeDeck K) = set ALL_CARDS - K"
  by (auto simp: makeDeck_def)

lemma length_makeDeck: "length (makeDeck K) = 52 - card (K \<inter> set ALL_CARDS)"
proof -
  have "length (makeDeck K) = card (set ALL_CARDS - K)"
    using distinct_card [OF distinct_makeDeck, of K] by (simp add: set_makeDeck)
  also have "set ALL_CARDS - K = set ALL_CARDS - (K \<inter> set ALL_CARDS)"
    by blast
  also have "card \<dots> = card (set ALL_CARDS) - card (K \<inter> set ALL_CARDS)"
    by (rule card_Diff_subset) auto
  also have "card (set ALL_CARDS) = 52"
    using distinct_card [OF distinct_ALL_CARDS] by (simp add: length_ALL_CARDS)
  finally show ?thesis .
qed

text \<open>
  C6. \<^verbatim>\<open>makeDeck\<close> returns the universe of 52 cards without the known set: the same
  cards, in the canonical order of the universe (rank-major, suit-minor), each once; when
  the known set consists of cards, the deck has \<open>52 - |known|\<close> entries.
\<close>

theorem makeDeck_universe_minus_known:
  "set (makeDeck known) = set ALL_CARDS - known
   \<and> subseq (makeDeck known) ALL_CARDS
   \<and> distinct (makeDeck known)
   \<and> length ALL_CARDS = 52 \<and> distinct ALL_CARDS
   \<and> (\<forall>r < length RANKS. \<forall>s < length SUITS.
        ALL_CARDS ! (length SUITS * r + s) = Str (RANKS ! r @ SUITS ! s))
   \<and> (known \<subseteq> set ALL_CARDS \<longrightarrow> length (makeDeck known) = 52 - card known)"
proof -
  have "subseq (makeDeck known) ALL_CARDS"
    by (simp add: makeDeck_def)
  moreover have "length (makeDeck known) = 52 - card known" if "known \<subseteq> set ALL_CARDS"
  proof -
    from that have "known \<inter> set ALL_CARDS = known" by blast
    then show ?thesis by (simp add: length_makeDeck)
  qed
  ultimately show ?thesis
    by (simp add: set_makeDeck distinct_makeDeck length_ALL_CARDS distinct_ALL_CARDS
        ALL_CARDS_rank_major)
qed

theorem makeDeck_universe_minus_known_witness:
  "{Str ''As'', Str ''Ks''} \<subseteq> set ALL_CARDS
   \<and> length (makeDeck {Str ''As'', Str ''Ks''}) = 50
   \<and> Str ''As'' \<notin> set (makeDeck {Str ''As'', Str ''Ks''})
   \<and> ALL_CARDS ! (length SUITS * 12 + 0) = Str ''As''"
proof -
  have sub: "{Str ''As'', Str ''Ks''} \<subseteq> set ALL_CARDS"
    by (simp add: ALL_CARDS_unfold)
  have r: "(12::nat) < length RANKS" and s: "(0::nat) < length SUITS"
    by (simp_all add: RANKS_def SUITS_def)
  note inst = makeDeck_universe_minus_known [of "{Str ''As'', Str ''Ks''}"]
  from inst sub have len: "length (makeDeck {Str ''As'', Str ''Ks''}) = 52 - card {Str ''As'', Str ''Ks''}"
    by blast
  from inst have "Str ''As'' \<notin> set (makeDeck {Str ''As'', Str ''Ks''})"
    by blast
  moreover from inst r s
  have "ALL_CARDS ! (length SUITS * 12 + 0) = Str (RANKS ! 12 @ SUITS ! 0)"
    by blast
  ultimately show ?thesis
    using sub len by (simp add: RANKS_def SUITS_def)
qed

section \<open>Classification of a trial\<close>

lemma winners_Cons:
  "winners (h # os) =
     (if \<forall>r \<in> set os. r \<le> h then [0] else [])
     @ map Suc (filter (\<lambda>i. h \<le> os ! i \<and> (\<forall>r \<in> set os. r \<le> os ! i)) [0..<length os])"
proof -
  have "[0..<length (h # os)] = 0 # map Suc [0..<length os]"
    by (simp add: upt_conv_Cons map_Suc_upt del: upt_Suc)
  then show ?thesis
    by (simp add: winners_def filter_map comp_def del: upt_Suc)
qed

lemma hero_in_winners: "0 \<in> set (winners (h # os)) \<longleftrightarrow> (\<forall>r \<in> set os. r \<le> h)"
  by (auto simp: winners_Cons)

lemma hero_sole_winner:
  "length (winners (h # os)) = 1 \<and> winners (h # os) ! 0 = 0 \<longleftrightarrow> (\<forall>r \<in> set os. r < h)"
proof
  assume a: "length (winners (h # os)) = 1 \<and> winners (h # os) ! 0 = 0"
  show "\<forall>r \<in> set os. r < h"
  proof (cases "\<forall>r \<in> set os. r \<le> h")
    case True
    with a have e: "filter (\<lambda>i. h \<le> os ! i \<and> (\<forall>r \<in> set os. r \<le> os ! i)) [0..<length os] = []"
      by (simp add: winners_Cons)
    show ?thesis
    proof
      fix r assume "r \<in> set os"
      then obtain i where i: "i < length os" "os ! i = r"
        by (auto simp: in_set_conv_nth)
      from e i have "\<not> (h \<le> r \<and> (\<forall>x \<in> set os. x \<le> r))"
        by (auto simp: filter_empty_conv)
      with True show "r < h"
        by (meson le_less_linear order_trans)
    qed
  next
    case False
    with a show ?thesis
      by (auto simp: winners_Cons nth_map split: if_splits)
  qed
next
  assume b: "\<forall>r \<in> set os. r < h"
  then have "\<forall>r \<in> set os. r \<le> h" by auto
  moreover have "filter (\<lambda>i. h \<le> os ! i \<and> (\<forall>r \<in> set os. r \<le> os ! i)) [0..<length os] = []"
    using b by (auto simp: filter_empty_conv not_le dest: nth_mem)
  ultimately show "length (winners (h # os)) = 1 \<and> winners (h # os) ! 0 = 0"
    by (simp add: winners_Cons)
qed

lemma classify_Win: "classify h os = Win \<longleftrightarrow> (\<forall>r \<in> set os. r < h)"
  using hero_sole_winner [of h os] by (auto simp: classify_def Let_def)

lemma classify_Tie:
  "classify h os = Tie \<longleftrightarrow> (\<forall>r \<in> set os. r \<le> h) \<and> (\<exists>r \<in> set os. r = h)"
proof -
  have one: "ws ! 0 = 0" if "length ws = 1" and "0 \<in> set ws" for ws :: "nat list"
    using that by (cases ws) auto
  have "classify h os = Tie \<longleftrightarrow> \<not> (\<forall>r \<in> set os. r < h) \<and> (\<forall>r \<in> set os. r \<le> h)"
    using hero_sole_winner [of h os] hero_in_winners [of h os] one [of "winners (h # os)"]
    by (auto simp: classify_def Let_def)
  also have "\<dots> \<longleftrightarrow> (\<forall>r \<in> set os. r \<le> h) \<and> (\<exists>r \<in> set os. r = h)"
    by (auto simp: less_le)
  finally show ?thesis .
qed

lemma Max_hero: "h = Max (set (h # os)) \<longleftrightarrow> (\<forall>r \<in> set os. r \<le> h)"
  by (metis List.finite_set Max_ge Max_in empty_iff list.set_intros(1) list.set_intros(2) set_ConsD order_antisym)

section \<open>The loop of trials and the validation\<close>

lemma trials_loop_run_seq:
  "trials_loop tr n t acc k =
     (let (outs, k') = run_seq tr (nat \<lceil>n\<rceil> - t) k in (fold bump outs acc, k'))"
proof (induction tr n t acc k rule: trials_loop.induct)
  case (1 tr n t acc k)
  show ?case
  proof (cases "real t < n")
    case True
    then have "int t < \<lceil>n\<rceil>"
      by (simp add: less_ceiling_iff)
    then have m: "nat \<lceil>n\<rceil> - t = Suc (nat \<lceil>n\<rceil> - (t + 1))"
      by linarith
    obtain out k' where tr: "tr k = (out, k')"
      by (cases "tr k")
    from True tr have "trials_loop tr n t acc k = trials_loop tr n (t + 1) (bump out acc) k'"
      by (subst trials_loop.simps) simp
    also have "\<dots> = (let (outs, k'') = run_seq tr (nat \<lceil>n\<rceil> - (t + 1)) k'
                    in (fold bump outs (bump out acc), k''))"
      using "1.IH" [OF True tr [symmetric] refl] .
    finally show ?thesis
      unfolding m by (simp add: tr split: prod.splits)
  next
    case False
    then have "\<not> int t < \<lceil>n\<rceil>"
      by (simp add: less_ceiling_iff)
    then have "nat \<lceil>n\<rceil> - t = 0"
      by linarith
    with False show ?thesis
      by (subst trials_loop.simps) simp
  qed
qed

lemma length_run_seq: "length (fst (run_seq tr m k)) = m"
proof (induction m arbitrary: k)
  case 0
  show ?case by simp
next
  case (Suc m)
  obtain out k' where tr: "tr k = (out, k')"
    by (cases "tr k")
  obtain outs k'' where rs: "run_seq tr m k' = (outs, k'')"
    by (cases "run_seq tr m k'")
  from Suc [of k'] rs tr show ?case by simp
qed


lemma fold_bump:
  "fold bump outs (w, t, l) =
     (w + count_list outs Win, t + count_list outs Tie, l + count_list outs Loss)"
proof (induction outs arbitrary: w t l)
  case Nil
  show ?case by simp
next
  case (Cons out outs)
  then show ?case by (cases out) simp_all
qed

lemma count_outcomes:
  "count_list outs Win + count_list outs Tie + count_list outs Loss = length outs"
proof (induction outs)
  case Nil
  show ?case by simp
next
  case (Cons out outs)
  then show ?case by (cases out) simp_all
qed

lemma snd_shuffle_loop: "snd (shuffle_loop rnd k i arr) = k + i"
  by (induction i arbitrary: k arr) (simp_all add: Let_def)

lemma snd_trial: "snd (trial solve players hero board known rnd k) = k + (length (makeDeck known) - 1)"
  by (simp add: trial_def shuffleInPlace_def snd_shuffle_loop split: prod.splits)
     (metis snd_shuffle_loop snd_conv)

lemma dup_check: "card (set xs) \<noteq> length xs \<longleftrightarrow> \<not> distinct xs"
  using card_distinct distinct_card by metis

lemma simulateEquity_valid:
  assumes "valid_request players hero board"
  shows "simulateEquity solve rnd k players hero board n =
           (Inr (rates (fst (run_trials solve rnd k players hero board n)) n),
            snd (run_trials solve rnd k players hero board n))"
proof -
  from assms have "distinct (filter truthy (hero @ board))"
    and "\<not> (players < 2 \<or> players > 10)"
    and "\<not> (\<not> truthy (js_get hero 0) \<or> \<not> truthy (js_get hero 1))"
    unfolding valid_request_def by auto
  then show ?thesis
    unfolding simulateEquity_def Let_def dup_check
    by (simp only: if_False if_True simp_thms split_beta)
qed

lemma simulateEquity_duplicate:
  assumes "\<not> distinct (filter truthy (hero @ board))"
  shows "simulateEquity solve rnd k players hero board n = (Inl DuplicateCards, k)"
  using assms unfolding simulateEquity_def Let_def dup_check
  by (simp only: if_True simp_thms)

lemma simulateEquity_invalid:
  assumes "\<not> valid_request players hero board"
  shows "\<exists>e. simulateEquity solve rnd k players hero board n = (Inl e, k)"
proof (cases "distinct (filter truthy (hero @ board))")
  case False
  then show ?thesis
    using simulateEquity_duplicate by blast
next
  case True
  note d = this
  show ?thesis
  proof (cases "players < 2 \<or> players > 10")
    case True
    with d show ?thesis
      unfolding simulateEquity_def Let_def dup_check
      by (simp only: if_False if_True simp_thms) blast
  next
    case False
    with d assms have "\<not> truthy (js_get hero 0) \<or> \<not> truthy (js_get hero 1)"
      unfolding valid_request_def by auto
    with d False show ?thesis
      unfolding simulateEquity_def Let_def dup_check
      by (simp only: if_False if_True simp_thms) blast
  qed
qed

lemma run_trials_run_seq:
  "run_trials solve rnd k players hero board n =
     (let (outs, k') = run_seq (trial solve players hero board (set (filter truthy (hero @ board))) rnd)
                         (nat \<lceil>n\<rceil>) k
      in ((count_list outs Win, count_list outs Tie, count_list outs Loss), k'))"
  by (simp add: run_trials_def Let_def trials_loop_run_seq fold_bump split: prod.splits
      del: filter_append set_append)

lemma bump_one: "bump out (w, t, l) = (w', t', l') \<Longrightarrow> w' + t' + l' = w + t + l + 1"
  by (cases out) auto

lemma run_trials_sum:
  assumes "run_trials solve rnd k players hero board n = ((w, t, l), k')"
  shows "w + t + l = nat \<lceil>n\<rceil>"
proof -
  let ?tr = "trial solve players hero board (set (filter truthy (hero @ board))) rnd"
  obtain outs k'' where rs: "run_seq ?tr (nat \<lceil>n\<rceil>) k = (outs, k'')"
    by (cases "run_seq ?tr (nat \<lceil>n\<rceil>) k")
  have len: "length outs = nat \<lceil>n\<rceil>"
    using length_run_seq [of ?tr "nat \<lceil>n\<rceil>" k] rs by simp
  have "run_trials solve rnd k players hero board n
              = ((count_list outs Win, count_list outs Tie, count_list outs Loss), k'')"
    using rs by (simp only: run_trials_run_seq Let_def split_conv)
  with assms have "w = count_list outs Win" "t = count_list outs Tie" "l = count_list outs Loss"
    by simp_all
  with count_outcomes [of outs] len show ?thesis by simp
qed

lemma whole_count: "real (nat \<lceil>n\<rceil>) = n \<longleftrightarrow> n \<in> \<nat>"
proof
  assume "real (nat \<lceil>n\<rceil>) = n"
  then have "n = of_nat (nat \<lceil>n\<rceil>)" by simp
  then show "n \<in> \<nat>" by (metis of_nat_in_Nats)
next
  assume "n \<in> \<nat>"
  then obtain m where "n = real m"
    by (auto elim: Nats_cases)
  then show "real (nat \<lceil>n\<rceil>) = n" by simp
qed




section \<open>Validation\<close>

text \<open>
  C2. \<^verbatim>\<open>simulateEquity\<close> throws a validation error exactly when the player count is
  outside \<open>[2, 10]\<close>, or hero lacks a hole card, or a card occurs twice among the chosen
  cards of hero and board. When it throws, no trial has run: the random source has not
  been read and there is no result. A duplicate is reported as such.
\<close>

theorem simulateEquity_throws_iff_invalid:
  "((\<exists>e. fst (simulateEquity solve rnd k players hero board n) = Inl e)
      \<longleftrightarrow> players < 2 \<or> 10 < players
          \<or> \<not> truthy (js_get hero 0) \<or> \<not> truthy (js_get hero 1)
          \<or> \<not> distinct (filter truthy (hero @ board)))
   \<and> (\<forall>e. fst (simulateEquity solve rnd k players hero board n) = Inl e
          \<longrightarrow> simulateEquity solve rnd k players hero board n = (Inl e, k))
   \<and> (\<not> distinct (filter truthy (hero @ board))
          \<longrightarrow> simulateEquity solve rnd k players hero board n = (Inl DuplicateCards, k))"
proof -
  have inv: "players < 2 \<or> 10 < players
          \<or> \<not> truthy (js_get hero 0) \<or> \<not> truthy (js_get hero 1)
          \<or> \<not> distinct (filter truthy (hero @ board)) \<longleftrightarrow> \<not> valid_request players hero board"
    unfolding valid_request_def by auto
  show ?thesis
  proof (cases "valid_request players hero board")
    case True
    then have "distinct (filter truthy (hero @ board))"
      unfolding valid_request_def by blast
    with True show ?thesis
      unfolding inv using simulateEquity_valid [OF True, of solve rnd k n]
      by simp
  next
    case False
    from simulateEquity_invalid [OF False, of solve rnd k n]
    obtain e where e: "simulateEquity solve rnd k players hero board n = (Inl e, k)"
      by blast
    show ?thesis
      unfolding inv using False e simulateEquity_duplicate [of hero board solve rnd k players n]
      by auto
  qed
qed

theorem simulateEquity_throws_iff_invalid_witness:
  "\<not> distinct (filter truthy ([Str ''As'', Str ''As''] @ [Str '''', Str '''', Str '''', Str '''', Str '''']))
   \<and> simulateEquity (\<lambda>cs. length cs) (\<lambda>k. 0) 7 2 [Str ''As'', Str ''As'']
        [Str '''', Str '''', Str '''', Str '''', Str ''''] 1000 = (Inl DuplicateCards, 7)
   \<and> (\<exists>e. fst (simulateEquity (\<lambda>cs. length cs) (\<lambda>k. 0) 7 11 [Str ''As'', Str ''Ks'']
        [Str '''', Str '''', Str '''', Str '''', Str ''''] 1000) = Inl e)"
proof -
  have d: "\<not> distinct (filter truthy ([Str ''As'', Str ''As''] @ [Str '''', Str '''', Str '''', Str '''', Str '''']))"
    by simp
  have p: "(11::int) < 2 \<or> (10::int) < 11
          \<or> \<not> truthy (js_get [Str ''As'', Str ''Ks''] 0) \<or> \<not> truthy (js_get [Str ''As'', Str ''Ks''] 1)
          \<or> \<not> distinct (filter truthy ([Str ''As'', Str ''Ks''] @ [Str '''', Str '''', Str '''', Str '''', Str '''']))"
    by simp
  from simulateEquity_throws_iff_invalid
         [of "\<lambda>cs. length cs" "\<lambda>k. 0" 7 2 "[Str ''As'', Str ''As'']"
             "[Str '''', Str '''', Str '''', Str '''', Str '''']" 1000] d
  have a: "simulateEquity (\<lambda>cs. length cs) (\<lambda>k. 0) 7 2 [Str ''As'', Str ''As'']
        [Str '''', Str '''', Str '''', Str '''', Str ''''] 1000 = (Inl DuplicateCards, 7)"
    by blast
  from simulateEquity_throws_iff_invalid
         [of "\<lambda>cs. length cs" "\<lambda>k. 0" 7 11 "[Str ''As'', Str ''Ks'']"
             "[Str '''', Str '''', Str '''', Str '''', Str '''']" 1000] p
  have b: "\<exists>e. fst (simulateEquity (\<lambda>cs. length cs) (\<lambda>k. 0) 7 11 [Str ''As'', Str ''Ks'']
        [Str '''', Str '''', Str '''', Str '''', Str ''''] 1000) = Inl e"
    by blast
  from d a b show ?thesis by blast
qed

section \<open>The outcome of a trial\<close>

text \<open>
  C4. In a trial, hero wins iff hero's rank is strictly greater than every opponent's
  rank; ties iff hero's rank is the maximum over hero and the opponents and some opponent
  attains that maximum too; loses otherwise. The ranks are those of hero's and of each
  opponent's cards together with the completed board.
\<close>

theorem classify_outcome:
  "(classify heroRank oppRanks = Win \<longleftrightarrow> (\<forall>r \<in> set oppRanks. r < heroRank))
   \<and> (classify heroRank oppRanks = Tie \<longleftrightarrow>
        heroRank = Max (set (heroRank # oppRanks))
        \<and> (\<exists>r \<in> set oppRanks. r = Max (set (heroRank # oppRanks))))
   \<and> (classify heroRank oppRanks = Loss \<longleftrightarrow>
        \<not> (\<forall>r \<in> set oppRanks. r < heroRank)
        \<and> \<not> (heroRank = Max (set (heroRank # oppRanks))
             \<and> (\<exists>r \<in> set oppRanks. r = Max (set (heroRank # oppRanks)))))
   \<and> fst (trial solve players hero board known rnd k) =
       (let deck = fst (shuffleInPlace rnd k (makeDeck known));
            (simBoard, opponents, idx) = deal deck players board
        in classify (solve (hero @ simBoard)) (map (\<lambda>h. solve (h @ simBoard)) opponents))"
proof -
  have w: "classify heroRank oppRanks = Win \<longleftrightarrow> (\<forall>r \<in> set oppRanks. r < heroRank)"
    by (rule classify_Win)
  have t: "classify heroRank oppRanks = Tie \<longleftrightarrow>
        heroRank = Max (set (heroRank # oppRanks))
        \<and> (\<exists>r \<in> set oppRanks. r = Max (set (heroRank # oppRanks)))"
    unfolding classify_Tie using Max_hero [of heroRank oppRanks] by metis
  have l: "classify heroRank oppRanks = Loss \<longleftrightarrow>
        classify heroRank oppRanks \<noteq> Win \<and> classify heroRank oppRanks \<noteq> Tie"
    by (cases "classify heroRank oppRanks") simp_all
  have tr: "fst (trial solve players hero board known rnd k) =
       (let deck = fst (shuffleInPlace rnd k (makeDeck known));
            (simBoard, opponents, idx) = deal deck players board
        in classify (solve (hero @ simBoard)) (map (\<lambda>h. solve (h @ simBoard)) opponents))"
    by (simp add: trial_def Let_def split: prod.splits)
  from w t l tr show ?thesis
    by (simp only: simp_thms)
qed

theorem classify_outcome_witness:
  "classify (5::nat) [3, 4] = Win \<and> classify (5::nat) [5, 2] = Tie \<and> classify (5::nat) [7, 5] = Loss
   \<and> classify (5::nat) [7, 7] = Loss"
proof -
  have m1: "Max (set [5, 5, 2::nat]) = 5" and m2: "Max (set [5, 7, 5::nat]) = 7"
    and m3: "Max (set [5, 7, 7::nat]) = 7"
    by simp_all
  have "classify (5::nat) [3, 4] = Win"
    using classify_outcome [of "5::nat" "[3, 4]", THEN conjunct1] by simp
  moreover have "classify (5::nat) [5, 2] = Tie"
    using classify_outcome [of "5::nat" "[5, 2]", THEN conjunct2, THEN conjunct1] m1 by simp
  moreover have "classify (5::nat) [7, 5] = Loss"
    using classify_outcome [of "5::nat" "[7, 5]", THEN conjunct2, THEN conjunct2, THEN conjunct1] m2
    by simp
  moreover have "classify (5::nat) [7, 7] = Loss"
    using classify_outcome [of "5::nat" "[7, 7]", THEN conjunct2, THEN conjunct2, THEN conjunct1] m3
    by simp
  ultimately show ?thesis by blast
qed

section \<open>Rates and equity\<close>

lemma rates_fields:
  assumes "n \<noteq> 0"
  shows "win (rates (w, t, l) n) = Some (fl (real w / n))"
    and "tie (rates (w, t, l) n) = Some (fl (real t / n))"
    and "loss (rates (w, t, l) n) = Some (fl (real l / n))"
    and "equity (rates (w, t, l) n) = Some (fl (fl (real w / n) + fl (fl (real t / n) / 2)))"
    and "result_iterations (rates (w, t, l) n) = n"
  using assms by (simp_all add: rates_def js_div_def Let_def)

lemma rates_near_one:
  assumes "0 \<le> a" and "0 \<le> b" and "0 \<le> c" and "a + b + c = 1"
  shows "\<bar>fl a + fl b + fl c - 1\<bar> \<le> 1 / 2 ^ 53"
    and "\<bar>fl (fl (fl a + fl b) + fl c) - 1\<bar> \<le> 4 / 2 ^ 53"
    and "0 \<le> fl (fl a + fl b / 2)"
    and "fl (fl a + fl b / 2) \<le> 1"
proof -
  define u :: real where "u = 1 / 2 ^ 53"
  have u0: "0 \<le> u" and u4: "u \<le> 1 / 4"
    by (simp_all add: u_def)
  have ea: "\<bar>fl a - a\<bar> \<le> a * u" and eb: "\<bar>fl b - b\<bar> \<le> b * u"
    and ec: "\<bar>fl c - c\<bar> \<le> c * u"
    using fl_err0 [OF assms(1)] fl_err0 [OF assms(2)] fl_err0 [OF assms(3)]
    unfolding u_def by (simp_all only: times_divide_eq_right mult_1_right)
  have "\<bar>fl a + fl b + fl c - 1\<bar> = \<bar>(fl a - a) + (fl b - b) + (fl c - c)\<bar>"
    using assms(4) by simp
  also have "\<dots> \<le> a * u + b * u + c * u"
    using ea eb ec by linarith
  also have "\<dots> = (a + b + c) * u"
    by (simp add: algebra_simps)
  finally have near: "\<bar>fl a + fl b + fl c - 1\<bar> \<le> u"
    unfolding assms(4) by simp
  then show "\<bar>fl a + fl b + fl c - 1\<bar> \<le> 1 / 2 ^ 53"
    unfolding u_def .
  have fa: "0 \<le> fl a" and fb: "0 \<le> fl b" and fc: "0 \<le> fl c"
    using assms(1-3) by (simp_all add: fl_nonneg)
  show "0 \<le> fl (fl a + fl b / 2)"
    using fa fb by (intro fl_nonneg) simp
  have "fl a \<le> a + a * u" and "fl b \<le> b + b * u"
    using ea eb by (simp_all add: abs_le_iff algebra_simps)
  then have "fl a + fl b / 2 \<le> (a + a * u) + (b + b * u) / 2"
    by (intro add_mono divide_right_mono) simp_all
  also have "\<dots> = (a + b / 2) * (1 + u)"
    by (simp add: algebra_simps)
  also have "\<dots> \<le> 1 * (1 + u)"
    using assms u0 by (intro mult_right_mono) simp_all
  finally have "fl a + fl b / 2 \<le> 1 + 1 / 2 ^ 53"
    unfolding u_def by (simp only: mult_1)
  then show "fl (fl a + fl b / 2) \<le> 1"
    using fa fb by (intro fl_le_one) simp_all
  define p where "p = fl (fl a + fl b)"
  have ab: "0 \<le> fl a + fl b" using fa fb by simp
  have ab1: "fl a + fl b \<le> 5 / 4"
    using near fc u4 by linarith
  have "\<bar>p - (fl a + fl b)\<bar> \<le> (fl a + fl b) * u"
    using fl_err0 [OF ab] unfolding u_def p_def
    by (simp only: times_divide_eq_right mult_1_right)
  also have "\<dots> \<le> 5 / 4 * u"
    using ab1 u0 by (rule mult_right_mono)
  finally have e1: "\<bar>p - (fl a + fl b)\<bar> \<le> 5 / 4 * u" .
  have p0: "0 \<le> p"
    unfolding p_def using ab by (rule fl_nonneg)
  have pc: "0 \<le> p + fl c" using p0 fc by simp
  have pc1: "p + fl c \<le> 25 / 16"
    using e1 near u4 by linarith
  have "\<bar>fl (p + fl c) - (p + fl c)\<bar> \<le> (p + fl c) * u"
    using fl_err0 [OF pc] unfolding u_def
    by (simp only: times_divide_eq_right mult_1_right)
  also have "\<dots> \<le> 25 / 16 * u"
    using pc1 u0 by (rule mult_right_mono)
  finally have e2: "\<bar>fl (p + fl c) - (p + fl c)\<bar> \<le> 25 / 16 * u" .
  from e1 e2 near u0 have "\<bar>fl (p + fl c) - 1\<bar> \<le> 4 * u"
    by linarith
  then show "\<bar>fl (fl (fl a + fl b) + fl c) - 1\<bar> \<le> 4 / 2 ^ 53"
    unfolding u_def p_def by simp
qed

text \<open>
  C5, as the code has it. For a request that passes validation and a whole iteration
  count \<open>n\<close> from 1 to \<open>2 ^ 53\<close>, the returned win, tie and loss rates are the doubles
  nearest to \<open>wins / n\<close>, \<open>ties / n\<close> and \<open>losses / n\<close>, and the equity is the double
  nearest to the win rate plus half the tie rate. The exact quotients sum to 1. The
  returned rates sum to 1 within \<open>2 ^ -53\<close>, and within \<open>2 ^ -51\<close> when they are added in
  double precision. The equity lies in \<open>[0, 1]\<close>.
\<close>

theorem simulateEquity_rates:
  assumes "valid_request players hero board" and "n \<in> \<nat>" and "1 \<le> n" and "n \<le> 2 ^ 53"
  shows "\<exists>w t l k' res.
           run_trials solve rnd k players hero board n = ((w, t, l), k')
           \<and> simulateEquity solve rnd k players hero board n = (Inr res, k')
           \<and> win res = Some (fl (real w / n))
           \<and> tie res = Some (fl (real t / n))
           \<and> loss res = Some (fl (real l / n))
           \<and> equity res = Some (fl (fl (real w / n) + fl (real t / n) / 2))
           \<and> result_iterations res = n
           \<and> real w / n + real t / n + real l / n = 1
           \<and> \<bar>fl (real w / n) + fl (real t / n) + fl (real l / n) - 1\<bar> \<le> 1 / 2 ^ 53
           \<and> \<bar>fl (fl (fl (real w / n) + fl (real t / n)) + fl (real l / n)) - 1\<bar> \<le> 4 / 2 ^ 53
           \<and> 0 \<le> fl (fl (real w / n) + fl (real t / n) / 2)
           \<and> fl (fl (real w / n) + fl (real t / n) / 2) \<le> 1"
proof -
  obtain w t l k' where rt: "run_trials solve rnd k players hero board n = ((w, t, l), k')"
    by (metis prod.exhaust)
  define res where "res = rates (w, t, l) n"
  define a where "a = real w / n"
  define b where "b = real t / n"
  define c where "c = real l / n"
  have se: "simulateEquity solve rnd k players hero board n = (Inr res, k')"
    using simulateEquity_valid [OF assms(1), of solve rnd k n] rt by (simp add: res_def)
  from assms(3) have n0: "n \<noteq> 0" and npos: "0 < n"
    by simp_all
  have nn: "0 \<le> a" "0 \<le> b" "0 \<le> c"
    using npos by (simp_all add: a_def b_def c_def)
  have half: "fl (fl b / 2) = fl b / 2"
    using nn(2) by (rule fl_half)
  have fields: "win res = Some (fl a)" "tie res = Some (fl b)" "loss res = Some (fl c)"
    "equity res = Some (fl (fl a + fl b / 2))" "result_iterations res = n"
    using rates_fields [OF n0, of w t l] unfolding res_def a_def b_def c_def half [unfolded b_def]
    by simp_all
  from run_trials_sum [OF rt] have "real (w + t + l) = real (nat \<lceil>n\<rceil>)"
    by simp
  also have "\<dots> = n"
    using assms(2) by (simp only: whole_count)
  finally have total: "real w + real t + real l = n"
    by simp
  have one: "a + b + c = 1"
  proof -
    have "a + b + c = (real w + real t + real l) / n"
      by (simp add: a_def b_def c_def add_divide_distrib)
    also have "\<dots> = 1"
      using total npos by simp
    finally show ?thesis .
  qed
  note near = rates_near_one [OF nn one]
  from rt se fields one near show ?thesis
    unfolding a_def b_def c_def by blast
qed

theorem simulateEquity_rates_witness:
  "valid_request 2 [Str ''As'', Str ''Ac''] [Str '''', Str '''', Str '''', Str '''', Str '''']
   \<and> (1000::real) \<in> \<nat> \<and> (1::real) \<le> 1000 \<and> (1000::real) \<le> 2 ^ 53
   \<and> (\<exists>w t l k' res.
        simulateEquity (\<lambda>cs. length cs) (\<lambda>k. 0) 0 2 [Str ''As'', Str ''Ac'']
              [Str '''', Str '''', Str '''', Str '''', Str ''''] 1000 = (Inr res, k')
        \<and> win res = Some (fl (real w / 1000)) \<and> tie res = Some (fl (real t / 1000))
        \<and> loss res = Some (fl (real l / 1000))
        \<and> equity res = Some (fl (fl (real w / 1000) + fl (real t / 1000) / 2))
        \<and> real w / 1000 + real t / 1000 + real l / 1000 = 1
        \<and> \<bar>fl (real w / 1000) + fl (real t / 1000) + fl (real l / 1000) - 1\<bar> \<le> 1 / 2 ^ 53)"
proof -
  have v: "valid_request 2 [Str ''As'', Str ''Ac''] [Str '''', Str '''', Str '''', Str '''', Str '''']"
    by (simp add: valid_request_def js_get_def)
  have n: "(1000::real) \<in> \<nat>" "(1::real) \<le> 1000" "(1000::real) \<le> 2 ^ 53"
    by simp_all
  from simulateEquity_rates [OF v n, of "\<lambda>cs. length cs" "\<lambda>k. 0" 0]
  obtain w t l k' res where
    "simulateEquity (\<lambda>cs. length cs) (\<lambda>k. 0) 0 2 [Str ''As'', Str ''Ac'']
              [Str '''', Str '''', Str '''', Str '''', Str ''''] 1000 = (Inr res, k')
        \<and> win res = Some (fl (real w / 1000)) \<and> tie res = Some (fl (real t / 1000))
        \<and> loss res = Some (fl (real l / 1000))
        \<and> equity res = Some (fl (fl (real w / 1000) + fl (real t / 1000) / 2))
        \<and> real w / 1000 + real t / 1000 + real l / 1000 = 1
        \<and> \<bar>fl (real w / 1000) + fl (real t / 1000) + fl (real l / 1000) - 1\<bar> \<le> 1 / 2 ^ 53"
    by blast
  with v n show ?thesis by blast
qed

section \<open>The iteration count\<close>

lemma clamp_iterations_range: "1000 \<le> clamp_iterations x \<and> clamp_iterations x \<le> 200000"
  by (cases x) simp_all

text \<open>
  C3. \<^verbatim>\<open>run\<close> passes to the simulation an iteration count clamped into
  \<open>[1000, 200000]\<close>: smaller values become 1000, larger ones 200000, values in the range
  are kept, whole or not. The trials that run are as many as the clamped count, rounded up
  where it is not whole, and whether the request is rejected does not depend on the
  iteration count.
\<close>

theorem run_clamps_iterations:
  "run solve rnd k players hero board iters
     = simulateEquity solve rnd k players hero board (clamp_iterations iters)
   \<and> 1000 \<le> clamp_iterations iters \<and> clamp_iterations iters \<le> 200000
   \<and> (\<forall>n. n < 1000 \<longrightarrow> clamp_iterations (Num n) = 1000)
   \<and> (\<forall>n. 200000 < n \<longrightarrow> clamp_iterations (Num n) = 200000)
   \<and> (\<forall>n. 1000 \<le> n \<and> n \<le> 200000 \<longrightarrow> clamp_iterations (Num n) = n)
   \<and> ((\<exists>e. fst (run solve rnd k players hero board iters) = Inl e)
        \<longleftrightarrow> \<not> valid_request players hero board)
   \<and> (valid_request players hero board \<longrightarrow>
        (\<exists>w t l k'. run_trials solve rnd k players hero board (clamp_iterations iters) = ((w, t, l), k')
           \<and> run solve rnd k players hero board iters
               = (Inr (rates (w, t, l) (clamp_iterations iters)), k')
           \<and> w + t + l = nat \<lceil>clamp_iterations iters\<rceil>))"
proof -
  have err: "(\<exists>e. fst (run solve rnd k players hero board iters) = Inl e)
        \<longleftrightarrow> \<not> valid_request players hero board"
  proof (cases "valid_request players hero board")
    case True
    then show ?thesis
      by (simp add: run_def simulateEquity_valid)
  next
    case False
    from simulateEquity_invalid [OF False, of solve rnd k "clamp_iterations iters"]
    show ?thesis using False by (auto simp: run_def)
  qed
  have ok: "\<exists>w t l k'. run_trials solve rnd k players hero board (clamp_iterations iters) = ((w, t, l), k')
           \<and> run solve rnd k players hero board iters
               = (Inr (rates (w, t, l) (clamp_iterations iters)), k')
           \<and> w + t + l = nat \<lceil>clamp_iterations iters\<rceil>"
    if v: "valid_request players hero board"
  proof -
    obtain w t l k' where rt:
      "run_trials solve rnd k players hero board (clamp_iterations iters) = ((w, t, l), k')"
      by (metis prod.exhaust)
    from run_trials_sum [OF rt]
    have "w + t + l = nat \<lceil>clamp_iterations iters\<rceil>" .
    moreover have "run solve rnd k players hero board iters
               = (Inr (rates (w, t, l) (clamp_iterations iters)), k')"
      using simulateEquity_valid [OF v, of solve rnd k "clamp_iterations iters"] rt
      by (simp add: run_def)
    ultimately show ?thesis using rt by blast
  qed
  from err ok clamp_iterations_range [of iters] show ?thesis
    by (simp add: run_def)
qed

theorem run_clamps_iterations_witness:
  "clamp_iterations (Num 5) = 1000 \<and> clamp_iterations (Num 999999) = 200000
   \<and> clamp_iterations (Num 20000) = 20000
   \<and> valid_request 2 [Str ''As'', Str ''Ac''] [Str '''', Str '''', Str '''', Str '''', Str '''']
   \<and> (\<exists>w t l k'. run (\<lambda>cs. length cs) (\<lambda>k. 0) 0 2 [Str ''As'', Str ''Ac'']
              [Str '''', Str '''', Str '''', Str '''', Str ''''] (Num 5)
               = (Inr (rates (w, t, l) 1000), k')
           \<and> w + t + l = 1000)"
proof -
  have v: "valid_request 2 [Str ''As'', Str ''Ac''] [Str '''', Str '''', Str '''', Str '''', Str '''']"
    by (simp add: valid_request_def js_get_def)
  note inst = run_clamps_iterations [of "\<lambda>cs. length cs" "\<lambda>k. 0" 0 2 "[Str ''As'', Str ''Ac'']"
              "[Str '''', Str '''', Str '''', Str '''', Str '''']" "Num 5"]
  have lo: "clamp_iterations (Num 5) = 1000"
    using inst by simp
  have hi: "clamp_iterations (Num 999999) = 200000"
    using inst by simp
  have mid: "clamp_iterations (Num 20000) = 20000"
    using inst by simp
  from inst v obtain w t l k' where
    "run (\<lambda>cs. length cs) (\<lambda>k. 0) 0 2 [Str ''As'', Str ''Ac'']
              [Str '''', Str '''', Str '''', Str '''', Str ''''] (Num 5)
               = (Inr (rates (w, t, l) (clamp_iterations (Num 5))), k')"
    and "w + t + l = nat \<lceil>clamp_iterations (Num 5)\<rceil>"
    by blast
  with lo have "run (\<lambda>cs. length cs) (\<lambda>k. 0) 0 2 [Str ''As'', Str ''Ac'']
              [Str '''', Str '''', Str '''', Str '''', Str ''''] (Num 5)
               = (Inr (rates (w, t, l) 1000), k')
           \<and> w + t + l = 1000"
    by simp
  with lo hi mid v show ?thesis
    by blast
qed

section \<open>The shuffle is a permutation\<close>

lemma pick_le:
  assumes "0 \<le> rnd k" and "rnd k \<le> 1 - 1 / 2 ^ 53"
  shows "pick rnd k i \<le> i"
proof -
  define u :: real where "u = 1 / 2 ^ 53"
  define N where "N = real (i + 1)"
  define y where "y = rnd k * N"
  have u: "0 < u" by (simp add: u_def)
  have N: "0 < N" by (simp add: N_def)
  have y0: "0 \<le> y"
    using assms(1) N by (simp add: y_def)
  have "\<bar>fl y - y\<bar> \<le> y * u"
    using fl_err0 [OF y0] by (simp add: u_def)
  then have "fl y \<le> y * (1 + u)"
    by (simp add: abs_le_iff algebra_simps)
  also have "\<dots> \<le> ((1 - u) * N) * (1 + u)"
  proof (rule mult_right_mono)
    show "y \<le> (1 - u) * N"
      unfolding y_def using assms(2) N by (intro mult_right_mono) (simp_all add: u_def)
    show "0 \<le> 1 + u" using u by simp
  qed
  also have "\<dots> = N - N * (u * u)"
    by (simp add: algebra_simps)
  also have "\<dots> < N"
    using N u by simp
  finally have "fl (rnd k * real (i + 1)) < real (i + 1)"
    by (simp add: y_def N_def)
  then have "\<lfloor>fl (rnd k * real (i + 1))\<rfloor> < int (i + 1)"
    by (simp add: floor_less_iff)
  then show ?thesis
    unfolding pick_def by linarith
qed

lemma swap_in_range:
  assumes "i < length arr" and "j < length arr"
  shows "swap arr i j = arr[i := arr ! j, j := arr ! i]"
  using assms by (simp add: swap_def js_get_def js_set_def Let_def)

lemma length_swap:
  assumes "i < length arr" and "j < length arr"
  shows "length (swap arr i j) = length arr"
  using assms by (simp add: swap_in_range)

lemma mset_swap_js:
  assumes "i < length arr" and "j < length arr"
  shows "mset (swap arr i j) = mset arr"
  using assms by (simp add: swap_in_range mset_swap)

lemma shuffle_loop_perm:
  assumes "unit_source rnd" and "i < length arr"
  shows "mset (fst (shuffle_loop rnd k i arr)) = mset arr"
  using assms(2)
proof (induction i arbitrary: k arr)
  case 0
  show ?case by simp
next
  case (Suc i)
  let ?j = "pick rnd k (Suc i)"
  from assms(1) have "?j \<le> Suc i"
    by (intro pick_le) (simp_all add: unit_source_def)
  with Suc.prems have j: "?j < length arr" by simp
  have "i < length (swap arr (Suc i) ?j)"
    using Suc.prems j by (simp add: length_swap)
  from Suc.IH [OF this, of "Suc k"] show ?case
    using Suc.prems j by (simp add: Let_def mset_swap_js)
qed

lemma shuffleInPlace_perm:
  assumes "unit_source rnd"
  shows "mset (fst (shuffleInPlace rnd k arr)) = mset arr"
proof (cases "arr = []")
  case True
  then show ?thesis by (simp add: shuffleInPlace_def)
next
  case False
  then have "length arr - 1 < length arr" by simp
  from shuffle_loop_perm [OF assms this] show ?thesis
    by (simp add: shuffleInPlace_def)
qed

lemma shuffleInPlace_facts:
  assumes "unit_source rnd"
  shows "set (fst (shuffleInPlace rnd k arr)) = set arr"
    and "length (fst (shuffleInPlace rnd k arr)) = length arr"
    and "distinct (fst (shuffleInPlace rnd k arr)) = distinct arr"
  using shuffleInPlace_perm [OF assms, of k arr]
  by (metis mset_eq_setD, metis mset_eq_length, metis mset_eq_imp_distinct_iff)

section \<open>A run whose rates do not sum to 1\<close>

lemma pick_zero: "rnd k = 0 \<Longrightarrow> pick rnd k i = 0"
  by (simp add: pick_def fl_zero)

lemma pick_top:
  assumes "rnd k = 127 / 128" and "i < 127"
  shows "pick rnd k i = i"
proof -
  define N where "N = real (i + 1)"
  define y where "y = 127 / 128 * N"
  have N: "1 \<le> N" "N \<le> 127"
    using assms(2) by (simp_all add: N_def)
  have y0: "0 \<le> y" using N by (simp add: y_def)
  have "\<bar>fl y - y\<bar> \<le> y / 9007199254740992"
    using fl_err0 [OF y0] by simp
  moreover have "y = 127 / 128 * N"
    by (simp add: y_def)
  ultimately have "N - 1 \<le> fl y" and "fl y < N"
    using N by linarith+
  then have "\<lfloor>fl y\<rfloor> = int i"
    unfolding N_def by (simp add: floor_eq_iff)
  then show ?thesis
    by (simp add: pick_def assms(1) y_def N_def)
qed

lemma swap_same: "i < length arr \<Longrightarrow> swap arr i i = arr"
  by (simp add: swap_in_range)

lemma shuffle_loop_skip:
  assumes "\<forall>m < i - r. pick rnd (k + m) (i - m) = i - m" and "r \<le> i" and "i < length arr"
  shows "shuffle_loop rnd k i arr = shuffle_loop rnd (k + (i - r)) r arr"
  using assms
proof (induction i arbitrary: k)
  case 0
  then show ?case by simp
next
  case (Suc i)
  show ?case
  proof (cases "r = Suc i")
    case True
    then show ?thesis by simp
  next
    case False
    with Suc.prems(2) have r: "r \<le> i" by simp
    from Suc.prems(1) r have p0: "pick rnd k (Suc i) = Suc i"
      by (metis add.right_neutral diff_zero zero_less_diff le_imp_less_Suc)
    have rest: "\<forall>m < i - r. pick rnd (Suc k + m) (i - m) = i - m"
    proof (intro allI impI)
      fix m assume "m < i - r"
      then have "Suc m < Suc i - r" by linarith
      from Suc.prems(1) [rule_format, OF this] show "pick rnd (Suc k + m) (i - m) = i - m"
        by simp
    qed
    from Suc.prems(3) have i: "i < length arr" by simp
    have "shuffle_loop rnd k (Suc i) arr = shuffle_loop rnd (Suc k) i arr"
      using Suc.prems(3) by (simp add: p0 swap_same)
    also have "\<dots> = shuffle_loop rnd (Suc k + (i - r)) r arr"
      using rest r i by (rule Suc.IH)
    also have "Suc k + (i - r) = k + (Suc i - r)"
      using r by simp
    finally show ?thesis .
  qed
qed

lemma fl_win: "fl (63 / 1000) = 4539628424389460 / 2 ^ 56"
  using fl_eval [of "63 / 1000" 4] by (simp add: round_even_def Let_def)

lemma fl_tie: "fl (583 / 1000) = 5251197165513998 / 2 ^ 53"
  using fl_eval [of "583 / 1000" 1] by (simp add: round_even_def Let_def)

lemma fl_loss: "fl (354 / 1000) = 6377097072356622 / 2 ^ 54"
  using fl_eval [of "354 / 1000" 2] by (simp add: round_even_def Let_def)

lemma fl_win_tie: "fl (4539628424389460 / 2 ^ 56 + 5251197165513998 / 2 ^ 53) = 5818650718562680 / 2 ^ 53"
  using fl_eval [of "4539628424389460 / 2 ^ 56 + 5251197165513998 / 2 ^ 53" 1]
  by (simp add: round_even_def Let_def)

lemma fl_sum: "fl (5818650718562680 / 2 ^ 53 + 6377097072356622 / 2 ^ 54) = 9007199254740991 / 2 ^ 53"
  using fl_eval [of "5818650718562680 / 2 ^ 53 + 6377097072356622 / 2 ^ 54" 1]
  by (simp add: round_even_def Let_def)

lemma fl_equity: "fl (4539628424389460 / 2 ^ 56 + 5251197165513998 / 2 ^ 53 / 2) = 6386104271611363 / 2 ^ 54"
  using fl_eval [of "4539628424389460 / 2 ^ 56 + 5251197165513998 / 2 ^ 53 / 2" 2]
  by (simp add: round_even_def Let_def)

lemma fl_over: "fl (3002 / 3001) = 4505100327013072 / 2 ^ 52"
  using fl_eval [of "3002 / 3001" 0]
  by (simp add: round_even_def Let_def)

lemma staged_known:
  "set (filter truthy ([Str ''As'', Str ''Ks''] @ [Str ''Qd'', Str ''Jd'', Str ''Td'', Str ''9c'', Str ''8c'']))
     = {Str ''As'', Str ''Ks'', Str ''Qd'', Str ''Jd'', Str ''Td'', Str ''9c'', Str ''8c''}"
  by simp

lemma staged_deck:
  "\<exists>rest. makeDeck {Str ''As'', Str ''Ks'', Str ''Qd'', Str ''Jd'', Str ''Td'', Str ''9c'', Str ''8c''}
            = Str ''2s'' # Str ''2h'' # Str ''2d'' # rest
          \<and> length rest = 42"
  by (simp add: makeDeck_def ALL_CARDS_unfold)

lemma fill_loop_known:
  assumes "\<forall>q < 5. truthy (js_get sb q)"
  shows "fill_loop deck i sb idx = (sb, idx)"
proof (induction "5 - i" arbitrary: i)
  case 0
  then show ?case
    by (subst fill_loop.simps) simp
next
  case (Suc m)
  then have i: "i < 5" and m: "m = 5 - (i + 1)"
    by simp_all
  from assms i have "truthy (js_get sb i)" by simp
  with i have "fill_loop deck i sb idx = fill_loop deck (i + 1) sb idx"
    by (subst fill_loop.simps) simp
  with Suc.hyps(1) [OF m] show ?case by simp
qed

lemma staged_deal:
  "deal deck 2 [Str ''Qd'', Str ''Jd'', Str ''Td'', Str ''9c'', Str ''8c'']
     = ([Str ''Qd'', Str ''Jd'', Str ''Td'', Str ''9c'', Str ''8c''], [[js_get deck 0, js_get deck 1]], 2)"
proof -
  let ?B = "[Str ''Qd'', Str ''Jd'', Str ''Td'', Str ''9c'', Str ''8c'']"
  have "\<forall>q < 5. truthy (js_get ?B q)"
    by (auto simp: js_get_def numeral_eq_Suc less_Suc_eq)
  then have "fill_loop deck 0 ?B 0 = (?B, 0)"
    by (rule fill_loop_known)
  moreover have "deal_loop deck 2 0 [] 0 = ([[js_get deck 0, js_get deck 1]], 2)"
    by (simp add: deal_loop.simps)
  ultimately show ?thesis
    by (simp add: deal_def)
qed

lemma staged_trial:
  "fst (trial first_card_rank 2 [Str ''As'', Str ''Ks'']
          [Str ''Qd'', Str ''Jd'', Str ''Td'', Str ''9c'', Str ''8c''] K rnd k)
     = classify (1::nat)
         [if js_get (fst (shuffleInPlace rnd k (makeDeck K))) 0 = Str ''2s'' then 0
          else if js_get (fst (shuffleInPlace rnd k (makeDeck K))) 0 = Str ''2d'' then 2 else 1]"
  by (simp add: trial_def staged_deal split_beta first_card_rank_def js_get_def)

lemma classify_staged:
  "classify (Suc 0) [0] = Win" "classify (Suc 0) [Suc 0] = Tie" "classify (Suc 0) [2] = Loss"
proof -
  show "classify (Suc 0) [0] = Win" by (simp add: classify_Win)
  show "classify (Suc 0) [Suc 0] = Tie" by (simp add: classify_Tie)
  have "classify (Suc 0) [2] \<noteq> Win" "classify (Suc 0) [2] \<noteq> Tie"
    by (simp_all add: classify_Win classify_Tie)
  then show "classify (Suc 0) [2] = Loss"
    by (cases "classify (Suc 0) [2]") simp_all
qed

lemma shuffle_keep:
  assumes "\<forall>m < 44. rnd (k + m) = 127 / 128" and "length arr = 45"
  shows "fst (shuffleInPlace rnd k arr) = arr"
proof -
  have "\<forall>m < 44 - 0. pick rnd (k + m) (44 - m) = 44 - m"
    using assms(1) by (simp add: pick_top)
  from shuffle_loop_skip [OF this, of arr] assms(2) show ?thesis
    by (simp add: shuffleInPlace_def)
qed

lemma shuffle_second:
  assumes "\<forall>m < 43. rnd (k + m) = 127 / 128" and "rnd (k + 43) = 0"
    and "arr = a # b # rest" and "length arr = 45"
  shows "js_get (fst (shuffleInPlace rnd k arr)) 0 = b"
proof -
  have "\<forall>m < 44 - 1. pick rnd (k + m) (44 - m) = 44 - m"
    using assms(1) by (simp add: pick_top)
  from shuffle_loop_skip [OF this, of arr] assms(4)
  have "shuffle_loop rnd k 44 arr = shuffle_loop rnd (k + 43) (Suc 0) arr"
    by simp
  also have "\<dots> = (swap arr (Suc 0) 0, Suc (k + 43))"
    using pick_zero [of rnd "k + 43" "Suc 0", OF assms(2)] by (simp add: Let_def)
  finally show ?thesis
    using assms(3,4) by (simp add: shuffleInPlace_def swap_def js_get_def js_set_def Let_def)
qed

lemma shuffle_third:
  assumes "\<forall>m < 42. rnd (k + m) = 127 / 128" and "rnd (k + 42) = 0" and "rnd (k + 43) = 127 / 128"
    and "arr = a # b # c # rest" and "length arr = 45"
  shows "js_get (fst (shuffleInPlace rnd k arr)) 0 = c"
proof -
  have "\<forall>m < 44 - 2. pick rnd (k + m) (44 - m) = 44 - m"
    using assms(1) by (simp add: pick_top)
  from shuffle_loop_skip [OF this, of arr] assms(5)
  have "shuffle_loop rnd k 44 arr = shuffle_loop rnd (k + 42) (Suc (Suc 0)) arr"
    by (simp add: numeral_2_eq_2)
  also have "\<dots> = shuffle_loop rnd (Suc (k + 42)) (Suc 0) (swap arr (Suc (Suc 0)) 0)"
    using pick_zero [of rnd "k + 42" "Suc (Suc 0)", OF assms(2)] by (simp add: Let_def)
  also have "\<dots> = (swap (swap arr (Suc (Suc 0)) 0) (Suc 0) (pick rnd (Suc (k + 42)) (Suc 0)),
                    Suc (Suc (k + 42)))"
    by (simp only: shuffle_loop.simps Let_def)
  also have "pick rnd (Suc (k + 42)) (Suc 0) = Suc 0"
  proof (rule pick_top)
    have "Suc (k + 42) = k + 43" by simp
    with assms(3) show "rnd (Suc (k + 42)) = 127 / 128" by (simp only:)
    show "Suc 0 < 127" by simp
  qed
  finally show ?thesis
    using assms(4,5) by (simp add: shuffleInPlace_def swap_def js_get_def js_set_def Let_def)
qed

lemma staged_source_at:
  assumes "m < 44"
  shows "staged_source (t * 44 + m)
           = (if (m = 43 \<and> 63 \<le> t \<and> t < 646) \<or> (m = 42 \<and> 646 \<le> t) then 0 else 127 / 128)"
  using assms by (simp add: staged_source_def Let_def)

lemma staged_outcome:
  "fst (trial first_card_rank 2 [Str ''As'', Str ''Ks'']
          [Str ''Qd'', Str ''Jd'', Str ''Td'', Str ''9c'', Str ''8c'']
          {Str ''As'', Str ''Ks'', Str ''Qd'', Str ''Jd'', Str ''Td'', Str ''9c'', Str ''8c''}
          staged_source (t * 44))
     = (if t < 63 then Win else if t < 646 then Tie else Loss)"
proof -
  let ?K = "{Str ''As'', Str ''Ks'', Str ''Qd'', Str ''Jd'', Str ''Td'', Str ''9c'', Str ''8c''}"
  from staged_deck obtain rest where
    d: "makeDeck ?K = Str ''2s'' # Str ''2h'' # Str ''2d'' # rest" and "length rest = 42"
    by blast
  then have len: "length (makeDeck ?K) = 45" by simp
  let ?c = "js_get (fst (shuffleInPlace staged_source (t * 44) (makeDeck ?K))) 0"
  consider "t < 63" | "63 \<le> t" "t < 646" | "646 \<le> t"
    by linarith
  then show ?thesis
  proof cases
    case 1
    then have "\<forall>m < 44. staged_source (t * 44 + m) = 127 / 128"
      by (simp add: staged_source_at)
    from shuffle_keep [OF this len] have "?c = Str ''2s''"
      by (simp add: d js_get_def)
    with 1 show ?thesis
      by (simp add: staged_trial classify_staged)
  next
    case 2
    then have "\<forall>m < 43. staged_source (t * 44 + m) = 127 / 128"
      and "staged_source (t * 44 + 43) = 0"
      by (simp_all add: staged_source_at)
    from shuffle_second [OF this d len] have "?c = Str ''2h''" .
    with 2 show ?thesis
      by (simp add: staged_trial classify_staged)
  next
    case 3
    then have "\<forall>m < 42. staged_source (t * 44 + m) = 127 / 128"
      and "staged_source (t * 44 + 42) = 0" and "staged_source (t * 44 + 43) = 127 / 128"
      by (simp_all add: staged_source_at)
    from shuffle_third [OF this d len] have "?c = Str ''2d''" .
    with 3 show ?thesis
      by (simp add: staged_trial classify_staged)
  qed
qed

lemma steady_outcome:
  "fst (trial first_card_rank 2 [Str ''As'', Str ''Ks'']
          [Str ''Qd'', Str ''Jd'', Str ''Td'', Str ''9c'', Str ''8c'']
          {Str ''As'', Str ''Ks'', Str ''Qd'', Str ''Jd'', Str ''Td'', Str ''9c'', Str ''8c''}
          (\<lambda>k. 127 / 128) k) = Win"
proof -
  let ?K = "{Str ''As'', Str ''Ks'', Str ''Qd'', Str ''Jd'', Str ''Td'', Str ''9c'', Str ''8c''}"
  from staged_deck obtain rest where
    d: "makeDeck ?K = Str ''2s'' # Str ''2h'' # Str ''2d'' # rest" and "length rest = 42"
    by blast
  then have len: "length (makeDeck ?K) = 45" by simp
  have "\<forall>m < 44. (\<lambda>k. 127 / 128 :: real) (k + m) = 127 / 128"
    by simp
  from shuffle_keep [OF this len]
  have "js_get (fst (shuffleInPlace (\<lambda>k. 127 / 128) k (makeDeck ?K))) 0 = Str ''2s''"
    by (simp add: d js_get_def)
  then show ?thesis
    by (simp add: staged_trial classify_staged)
qed

lemma run_seq_map:
  assumes "\<And>k. snd (tr k) = k + d"
  shows "fst (run_seq tr m k) = map (\<lambda>t. fst (tr (k + t * d))) [0..<m]"
proof (induction m arbitrary: k)
  case 0
  show ?case by simp
next
  case (Suc m)
  obtain out k' where tr: "tr k = (out, k')"
    by (cases "tr k")
  with assms [of k] have k': "k' = k + d" by simp
  have "fst (run_seq tr (Suc m) k) = out # fst (run_seq tr m k')"
    by (simp add: tr split_beta)
  also have "\<dots> = fst (tr (k + 0 * d)) # map (\<lambda>t. fst (tr (k + Suc t * d))) [0..<m]"
    by (simp add: Suc.IH k' tr add.assoc)
  also have "\<dots> = map (\<lambda>t. fst (tr (k + t * d))) (0 # map Suc [0..<m])"
    by (simp add: comp_def)
  also have "0 # map Suc [0..<m] = [0..<Suc m]"
    by (simp only: map_Suc_upt upt_conv_Cons zero_less_Suc if_True)
  finally show ?case .
qed

lemma count_list_map_upt:
  "count_list (map f [0..<n]) x = card {t. t < n \<and> f t = x}"
proof -
  have "count_list (map f xs) x = length (filter (\<lambda>t. f t = x) xs)" for xs
    by (induction xs) simp_all
  moreover have "{i. i < n \<and> f ([0..<n] ! i) = x} = {t. t < n \<and> f t = x}"
    by auto
  ultimately show ?thesis
    by (simp add: length_filter_conv_card)
qed

lemma staged_valid:
  "valid_request 2 [Str ''As'', Str ''Ks''] [Str ''Qd'', Str ''Jd'', Str ''Td'', Str ''9c'', Str ''8c'']"
  by (simp add: valid_request_def js_get_def)

lemma staged_run:
  assumes "\<And>t. fst (trial first_card_rank 2 [Str ''As'', Str ''Ks'']
                    [Str ''Qd'', Str ''Jd'', Str ''Td'', Str ''9c'', Str ''8c'']
                    {Str ''As'', Str ''Ks'', Str ''Qd'', Str ''Jd'', Str ''Td'', Str ''9c'', Str ''8c''}
                    rnd (t * 44)) = f t"
  shows "fst (simulateEquity first_card_rank rnd 0 2 [Str ''As'', Str ''Ks'']
                [Str ''Qd'', Str ''Jd'', Str ''Td'', Str ''9c'', Str ''8c''] n)
           = Inr (rates (card {t. t < nat \<lceil>n\<rceil> \<and> f t = Win}, card {t. t < nat \<lceil>n\<rceil> \<and> f t = Tie},
                         card {t. t < nat \<lceil>n\<rceil> \<and> f t = Loss}) n)"
proof -
  let ?H = "[Str ''As'', Str ''Ks'']"
  let ?B = "[Str ''Qd'', Str ''Jd'', Str ''Td'', Str ''9c'', Str ''8c'']"
  let ?K = "{Str ''As'', Str ''Ks'', Str ''Qd'', Str ''Jd'', Str ''Td'', Str ''9c'', Str ''8c''}"
  let ?tr = "trial first_card_rank 2 ?H ?B ?K rnd"
  from staged_deck have len: "length (makeDeck ?K) - 1 = 44"
    by auto
  have step: "snd (?tr k) = k + 44" for k
    using snd_trial [of first_card_rank 2 ?H ?B ?K rnd k] by (simp only: len)
  have outs: "fst (run_seq ?tr (nat \<lceil>n\<rceil>) 0) = map f [0..<nat \<lceil>n\<rceil>]"
    using run_seq_map [of ?tr 44 "nat \<lceil>n\<rceil>" 0, OF step] assms by simp
  obtain os k' where rs: "run_seq ?tr (nat \<lceil>n\<rceil>) 0 = (os, k')"
    by (cases "run_seq ?tr (nat \<lceil>n\<rceil>) 0")
  with outs have os: "os = map f [0..<nat \<lceil>n\<rceil>]" by simp
  have "run_trials first_card_rank rnd 0 2 ?H ?B n
          = ((count_list os Win, count_list os Tie, count_list os Loss), k')"
    using rs by (simp only: run_trials_run_seq staged_known Let_def split_conv)
  then have "fst (run_trials first_card_rank rnd 0 2 ?H ?B n)
          = (card {t. t < nat \<lceil>n\<rceil> \<and> f t = Win}, card {t. t < nat \<lceil>n\<rceil> \<and> f t = Tie},
             card {t. t < nat \<lceil>n\<rceil> \<and> f t = Loss})"
    by (simp add: os count_list_map_upt)
  then show ?thesis
    by (simp add: simulateEquity_valid [OF staged_valid])
qed

lemma staged_counts:
  "card {t::nat. t < 1000 \<and> (if t < 63 then Win else if t < 646 then Tie else Loss) = Win} = 63"
  "card {t::nat. t < 1000 \<and> (if t < 63 then Win else if t < 646 then Tie else Loss) = Tie} = 583"
  "card {t::nat. t < 1000 \<and> (if t < 63 then Win else if t < 646 then Tie else Loss) = Loss} = 354"
proof -
  have "{t::nat. t < 1000 \<and> (if t < 63 then Win else if t < 646 then Tie else Loss) = Win} = {0..<63::nat}"
    by auto
  then show "card {t::nat. t < 1000 \<and> (if t < 63 then Win else if t < 646 then Tie else Loss) = Win} = 63"
    by simp
  have "{t::nat. t < 1000 \<and> (if t < 63 then Win else if t < 646 then Tie else Loss) = Tie} = {63..<646::nat}"
    by auto
  then show "card {t::nat. t < 1000 \<and> (if t < 63 then Win else if t < 646 then Tie else Loss) = Tie} = 583"
    by simp
  have "{t::nat. t < 1000 \<and> (if t < 63 then Win else if t < 646 then Tie else Loss) = Loss} = {646..<1000::nat}"
    by auto
  then show "card {t::nat. t < 1000 \<and> (if t < 63 then Win else if t < 646 then Tie else Loss) = Loss} = 354"
    by simp
qed

lemma rates_staged:
  "rates (63, 583, 354) 1000
     = \<lparr>win = Some (4539628424389460 / 2 ^ 56), tie = Some (5251197165513998 / 2 ^ 53),
        loss = Some (6377097072356622 / 2 ^ 54), equity = Some (6386104271611363 / 2 ^ 54),
        result_iterations = 1000\<rparr>"
proof -
  have half: "fl (fl (583 / 1000) / 2) = fl (583 / 1000) / 2"
    by (rule fl_half) simp
  have "rates (63, 583, 354) 1000
     = \<lparr>win = Some (fl (63 / 1000)), tie = Some (fl (583 / 1000)),
        loss = Some (fl (354 / 1000)), equity = Some (fl (fl (63 / 1000) + fl (583 / 1000) / 2)),
        result_iterations = 1000\<rparr>"
    by (simp add: rates_def js_div_def half)
  then show ?thesis
    by (simp only: fl_win fl_tie fl_loss fl_equity)
qed

lemma rates_steady:
  "rates (1501, 0, 0) (3001 / 2)
     = \<lparr>win = Some (4505100327013072 / 2 ^ 52), tie = Some 0, loss = Some 0,
        equity = Some (4505100327013072 / 2 ^ 52), result_iterations = 3001 / 2\<rparr>"
proof -
  have idem: "fl (fl (3002 / 3001)) = fl (3002 / 3001)"
    by (rule fl_idem) simp
  have "rates (1501, 0, 0) (3001 / 2)
     = \<lparr>win = Some (fl (3002 / 3001)), tie = Some 0, loss = Some 0,
        equity = Some (fl (3002 / 3001)), result_iterations = 3001 / 2\<rparr>"
    by (simp add: rates_def js_div_def fl_zero idem)
  then show ?thesis
    by (simp only: fl_over)
qed

text \<open>
  The claim as it is written fails in two ways. With hero \<open>As Ks\<close>, a board of five known
  cards, one opponent and 1000 iterations, the staged source and evaluator give 63 wins,
  583 ties and 354 losses. The three rates returned are the doubles nearest to 0.063, 0.583
  and 0.354; their sum is \<open>1 - 2 ^ -54\<close>, and added in double precision it is
  \<open>1 - 2 ^ -53\<close>, which JavaScript prints as 0.9999999999999999. At 1500.5 iterations a
  run in which hero wins every trial counts 1501 wins: the win rate and the equity are
  the double nearest to \<open>1501 / 1500.5\<close>, which is above 1.
\<close>

theorem simulateEquity_rates_inexact:
  "fst (simulateEquity first_card_rank staged_source 0 2 [Str ''As'', Str ''Ks'']
          [Str ''Qd'', Str ''Jd'', Str ''Td'', Str ''9c'', Str ''8c''] 1000)
     = Inr \<lparr>win = Some (4539628424389460 / 2 ^ 56), tie = Some (5251197165513998 / 2 ^ 53),
            loss = Some (6377097072356622 / 2 ^ 54), equity = Some (6386104271611363 / 2 ^ 54),
            result_iterations = 1000\<rparr>
   \<and> (4539628424389460 / 2 ^ 56 + 5251197165513998 / 2 ^ 53 + 6377097072356622 / 2 ^ 54 :: real)
       = 1 - 1 / 2 ^ 54
   \<and> fl (fl (4539628424389460 / 2 ^ 56 + 5251197165513998 / 2 ^ 53) + 6377097072356622 / 2 ^ 54)
       = 1 - 1 / 2 ^ 53
   \<and> fst (simulateEquity first_card_rank (\<lambda>k. 127 / 128) 0 2 [Str ''As'', Str ''Ks'']
          [Str ''Qd'', Str ''Jd'', Str ''Td'', Str ''9c'', Str ''8c''] (3001 / 2))
     = Inr \<lparr>win = Some (4505100327013072 / 2 ^ 52), tie = Some 0, loss = Some 0,
            equity = Some (4505100327013072 / 2 ^ 52), result_iterations = 3001 / 2\<rparr>
   \<and> (1::real) < 4505100327013072 / 2 ^ 52"
proof -
  have a: "fst (simulateEquity first_card_rank staged_source 0 2 [Str ''As'', Str ''Ks'']
          [Str ''Qd'', Str ''Jd'', Str ''Td'', Str ''9c'', Str ''8c''] 1000)
     = Inr (rates (63, 583, 354) 1000)"
    using staged_run [of staged_source "\<lambda>t. if t < 63 then Win else if t < 646 then Tie else Loss" 1000,
        OF staged_outcome]
    by (simp add: staged_counts)
  have b: "fst (simulateEquity first_card_rank (\<lambda>k. 127 / 128) 0 2 [Str ''As'', Str ''Ks'']
          [Str ''Qd'', Str ''Jd'', Str ''Td'', Str ''9c'', Str ''8c''] (3001 / 2))
     = Inr (rates (1501, 0, 0) (3001 / 2))"
    using staged_run [of "\<lambda>k. 127 / 128" "\<lambda>t. Win" "3001 / 2", OF steady_outcome]
    by simp
  have c: "(4539628424389460 / 2 ^ 56 + 5251197165513998 / 2 ^ 53 + 6377097072356622 / 2 ^ 54 :: real)
       = 1 - 1 / 2 ^ 54"
    by simp
  have d: "fl (fl (4539628424389460 / 2 ^ 56 + 5251197165513998 / 2 ^ 53) + 6377097072356622 / 2 ^ 54)
       = 1 - 1 / 2 ^ 53"
    by (simp only: fl_win_tie fl_sum) simp
  have e: "(1::real) < 4505100327013072 / 2 ^ 52"
    by simp
  from a b c d e show ?thesis
    by (simp only: rates_staged rates_steady simp_thms)
qed

section \<open>Dealing from the shuffled deck\<close>

lemma js_get_js_set_other: "q \<noteq> i \<Longrightarrow> i \<le> length arr \<Longrightarrow> js_get (js_set arr i v) q = js_get arr q"
  by (auto simp: js_get_def js_set_def nth_append)

lemma js_get_js_set_same: "js_get (js_set arr i v) i = v"
  by (auto simp: js_get_def js_set_def nth_append)

lemma length_js_set: "i \<le> length arr \<Longrightarrow> length (js_set arr i v) = max (length arr) (Suc i)"
  by (auto simp: js_set_def)

lemma truthy_in_range: "truthy (js_get arr q) \<Longrightarrow> q < length arr"
  by (auto simp: js_get_def split: if_splits)

lemma fill_loop_spec:
  assumes "i \<le> 5" and "i \<le> length sb"
  shows "fst (fill_loop deck i sb idx) =
           map (\<lambda>q. if q < i \<or> 5 \<le> q \<or> truthy (js_get sb q) then js_get sb q
                     else js_get deck (idx + length (filter (\<lambda>q'. \<not> truthy (js_get sb q')) [i..<q])))
               [0..<max (length sb) 5]
         \<and> snd (fill_loop deck i sb idx) = idx + length (filter (\<lambda>q. \<not> truthy (js_get sb q)) [i..<5])"
  using assms
proof (induction deck i sb idx rule: fill_loop.induct)
  case (1 deck i sb idx)
  show ?case
  proof (cases "i < 5")
    case False
    with "1.prems" have i: "i = 5" by simp
    have res: "fill_loop deck i sb idx = (sb, idx)"
      using False by (subst fill_loop.simps) simp
    have m: "max (length sb) 5 = length sb"
      using "1.prems" i by simp
    have "sb = map (\<lambda>q. if q < i \<or> 5 \<le> q \<or> truthy (js_get sb q) then js_get sb q
                     else js_get deck (idx + length (filter (\<lambda>q'. \<not> truthy (js_get sb q')) [i..<q])))
               [0..<max (length sb) 5]"
      unfolding m i by (intro nth_equalityI) (auto simp: js_get_def)
    then show ?thesis
      unfolding res using i by simp
  next
    case True
    note lt = this
    show ?thesis
    proof (cases "truthy (js_get sb i)")
      case True
      then have il: "i < length sb" by (rule truthy_in_range)
      have step: "fill_loop deck i sb idx = fill_loop deck (i + 1) sb idx"
        using lt True by (subst fill_loop.simps) simp
      have ih: "fst (fill_loop deck (i + 1) sb idx) =
           map (\<lambda>q. if q < i + 1 \<or> 5 \<le> q \<or> truthy (js_get sb q) then js_get sb q
                     else js_get deck (idx + length (filter (\<lambda>q'. \<not> truthy (js_get sb q')) [i + 1..<q])))
               [0..<max (length sb) 5]
         \<and> snd (fill_loop deck (i + 1) sb idx) = idx + length (filter (\<lambda>q. \<not> truthy (js_get sb q)) [i + 1..<5])"
        using "1.IH"(2) [OF lt] True lt il by simp
      have up: "[i..<q] = i # [i + 1..<q]" if "i < q" for q
        using that by (simp add: upt_conv_Cons)
      have "(if q < i + 1 \<or> 5 \<le> q \<or> truthy (js_get sb q) then js_get sb q
                     else js_get deck (idx + length (filter (\<lambda>q'. \<not> truthy (js_get sb q')) [i + 1..<q])))
          = (if q < i \<or> 5 \<le> q \<or> truthy (js_get sb q) then js_get sb q
                     else js_get deck (idx + length (filter (\<lambda>q'. \<not> truthy (js_get sb q')) [i..<q])))" for q
        using True by (cases "q = i") (auto simp: up)
      with ih step True lt show ?thesis
        by (simp add: up)
    next
      case False
      let ?sb = "js_set sb i (js_get deck idx)"
      have step: "fill_loop deck i sb idx = fill_loop deck (i + 1) ?sb (idx + 1)"
        using lt False by (subst fill_loop.simps) simp
      have len: "length ?sb = max (length sb) (Suc i)"
        using "1.prems" by (simp add: length_js_set)
      have ih: "fst (fill_loop deck (i + 1) ?sb (idx + 1)) =
           map (\<lambda>q. if q < i + 1 \<or> 5 \<le> q \<or> truthy (js_get ?sb q) then js_get ?sb q
                     else js_get deck (idx + 1 + length (filter (\<lambda>q'. \<not> truthy (js_get ?sb q')) [i + 1..<q])))
               [0..<max (length ?sb) 5]
         \<and> snd (fill_loop deck (i + 1) ?sb (idx + 1))
             = idx + 1 + length (filter (\<lambda>q. \<not> truthy (js_get ?sb q)) [i + 1..<5])"
        using "1.IH"(1) [OF lt] False lt len by simp
      have up: "[i..<q] = i # [i + 1..<q]" if "i < q" for q
        using that by (simp add: upt_conv_Cons)
      have other: "js_get ?sb q = js_get sb q" if "q \<noteq> i" for q
        using that "1.prems" by (simp add: js_get_js_set_other)
      have filt: "filter (\<lambda>q'. \<not> truthy (js_get ?sb q')) [i + 1..<q]
                   = filter (\<lambda>q'. \<not> truthy (js_get sb q')) [i + 1..<q]" for q
        by (rule filter_cong) (auto simp: other)
      have m: "max (length ?sb) 5 = max (length sb) 5"
        using len lt by simp
      have "(if q < i + 1 \<or> 5 \<le> q \<or> truthy (js_get ?sb q) then js_get ?sb q
                     else js_get deck (idx + 1 + length (filter (\<lambda>q'. \<not> truthy (js_get ?sb q')) [i + 1..<q])))
          = (if q < i \<or> 5 \<le> q \<or> truthy (js_get sb q) then js_get sb q
                     else js_get deck (idx + length (filter (\<lambda>q'. \<not> truthy (js_get sb q')) [i..<q])))" for q
      proof (cases "q = i")
        case True
        with False lt show ?thesis by (simp add: js_get_js_set_same)
      next
        case neq: False
        show ?thesis
        proof (cases "i < q")
          case True
          with False neq show ?thesis
            unfolding filt by (simp add: other up)
        next
          case False
          with neq have "q < i" by simp
          then show ?thesis by (simp add: other)
        qed
      qed
      with ih step False lt m show ?thesis
        unfolding filt by (simp add: up)
    qed
  qed
qed

lemma deal_loop_spec:
  "deal_loop deck players p opps idx =
     (opps @ map (\<lambda>m. [js_get deck (idx + 2 * m), js_get deck (idx + 2 * m + 1)])
               [0..<nat (players - 1 - int p)],
      idx + 2 * nat (players - 1 - int p))"
proof (induction deck players p opps idx rule: deal_loop.induct)
  case (1 deck players p opps idx)
  show ?case
  proof (cases "int p < players - 1")
    case False
    then show ?thesis
      by (subst deal_loop.simps) simp
  next
    case True
    then have n: "nat (players - 1 - int p) = Suc (nat (players - 1 - int (p + 1)))"
      by simp
    have m: "map f [0..<Suc n] = f 0 # map (\<lambda>m. f (Suc m)) [0..<n]" for f :: "nat \<Rightarrow> jsval list" and n
      by (simp add: upt_conv_Cons map_Suc_upt [symmetric] del: upt_Suc)
    have step: "deal_loop deck players p opps idx
                  = deal_loop deck players (p + 1)
                      (opps @ [[js_get deck idx, js_get deck (idx + 1)]]) (idx + 2)"
      using True by (subst deal_loop.simps) (simp add: Let_def)
    show ?thesis
      unfolding step "1.IH" [OF True refl refl] n
      by (simp add: m del: upt_Suc)
  qed
qed

lemma concat_pairs:
  "concat (map (\<lambda>m. [f (idx + 2 * m), f (idx + 2 * m + 1)]) [0..<n]) = map f [idx..<idx + 2 * n]"
proof (induction n)
  case 0
  show ?case by simp
next
  case (Suc n)
  have "[idx..<idx + 2 * Suc n] = [idx..<idx + 2 * n] @ [idx + 2 * n, idx + 2 * n + 1]"
    by (simp add: upt_rec [of "idx + 2 * n" "Suc (Suc (idx + 2 * n))"] upt_add_eq_append [of idx "idx + 2 * n" 2, simplified])
  with Suc show ?case by simp
qed

lemma map_js_get_take_drop:
  assumes "b \<le> length deck"
  shows "map (js_get deck) [a..<b] = take (b - a) (drop a deck)"
  using assms by (intro nth_equalityI) (auto simp: js_get_def)

lemma filter_positions:
  "map (\<lambda>q. length (filter P [0..<q])) (filter P [0..<n]) = [0..<length (filter P [0..<n])]"
  by (induction n) simp_all

lemma filter_truthy_slots:
  assumes "length board \<le> n"
  shows "filter truthy board = map (js_get board) (filter (\<lambda>q. truthy (js_get board q)) [0..<n])"
proof -
  have b: "board = map (js_get board) [0..<length board]"
    by (intro nth_equalityI) (simp_all add: js_get_def)
  have "filter (\<lambda>q. truthy (js_get board q)) [length board..<n] = []"
    by (auto simp: filter_empty_conv js_get_def)
  moreover have "[0..<n] = [0..<length board] @ [length board..<n]"
    using assms by (metis le_add_diff_inverse upt_add_eq_append zero_le)
  ultimately have "map (js_get board) (filter (\<lambda>q. truthy (js_get board q)) [0..<n])
        = map (js_get board) (filter (\<lambda>q. truthy (js_get board q)) [0..<length board])"
    by simp
  also have "\<dots> = filter truthy (map (js_get board) [0..<length board])"
    by (simp add: filter_map comp_def)
  also have "\<dots> = filter truthy board"
    using b by simp
  finally show ?thesis by simp
qed

lemma unknown_plus_known:
  assumes "length board \<le> 5"
  shows "length (unknown_slots board) + length (filter truthy board) = 5"
proof -
  have "length (filter truthy board) = length (filter (\<lambda>q. truthy (js_get board q)) [0..<5])"
    using filter_truthy_slots [OF assms] by (metis length_map)
  then show ?thesis
    unfolding unknown_slots_def
    using sum_length_filter_compl [of "\<lambda>q. truthy (js_get board q)" "[0..<5]"] by simp
qed

lemma hero_all_truthy:
  assumes "length hero = 2" and "truthy (js_get hero 0)" and "truthy (js_get hero 1)"
  shows "filter truthy hero = hero"
proof -
  from assms(1) obtain a b where "hero = [a, b]"
    by (metis (no_types, opaque_lifting) One_nat_def Suc_1 length_0_conv length_Suc_conv)
  with assms(2,3) show ?thesis by (simp add: js_get_def)
qed

lemma deck_at_least: "52 - card (set xs) \<le> length (makeDeck (set xs))"
proof -
  have "card (set xs \<inter> set ALL_CARDS) \<le> card (set xs)"
    by (intro card_mono) auto
  then show ?thesis
    unfolding length_makeDeck by simp
qed

lemma required_le_unknown:
  assumes "valid_request players hero board" and "length hero = 2" and "length board \<le> 5"
  shows "nat (players - 1) * 2 + length (unknown_slots board)
           \<le> 52 - card (set (filter truthy (hero @ board)))"
proof -
  let ?K = "set (filter truthy (hero @ board))"
  have "card ?K \<le> length (filter truthy (hero @ board))"
    by (rule card_length)
  also have "\<dots> = length (filter truthy hero) + length (filter truthy board)"
    by simp
  also have "\<dots> \<le> 2 + length (filter truthy board)"
    using assms(2) length_filter_le [of truthy hero] by simp
  finally have "card ?K + length (unknown_slots board) \<le> 7"
    using unknown_plus_known [OF assms(3)] by simp
  moreover have "nat (players - 1) \<le> 9"
  proof -
    from assms(1) have "players \<le> 10" unfolding valid_request_def by blast
    then show ?thesis by linarith
  qed
  ultimately show ?thesis
    by simp
qed

lemma required_le_deck:
  assumes "valid_request players hero board" and "length hero = 2" and "length board \<le> 5"
  shows "nat (players - 1) * 2 + length (unknown_slots board)
           \<le> length (makeDeck (set (filter truthy (hero @ board))))"
  using required_le_unknown [OF assms] deck_at_least [of "filter truthy (hero @ board)"]
  by (rule order_trans)

lemma deal_spec:
  assumes "length board \<le> 5"
  shows "deal deck players board =
           (map (\<lambda>q. if truthy (js_get board q) then js_get board q
                      else js_get deck (length (filter (\<lambda>q'. \<not> truthy (js_get board q')) [0..<q])))
                [0..<5],
            map (\<lambda>m. [js_get deck (length (unknown_slots board) + 2 * m),
                       js_get deck (length (unknown_slots board) + 2 * m + 1)])
                [0..<nat (players - 1)],
            length (unknown_slots board) + 2 * nat (players - 1))"
proof -
  have m: "max (length board) 5 = 5"
    using assms by simp
  have f: "fill_loop deck 0 board 0 =
            (map (\<lambda>q. if truthy (js_get board q) then js_get board q
                      else js_get deck (length (filter (\<lambda>q'. \<not> truthy (js_get board q')) [0..<q])))
                [0..<5], length (unknown_slots board))"
    using fill_loop_spec [of 0 board deck 0] unfolding m unknown_slots_def
    by (intro prod_eqI) (simp_all cong: map_cong)
  show ?thesis
    unfolding deal_def f by (simp add: deal_loop_spec)
qed

lemma filter_prefix_less:
  assumes "q < n" and "P q"
  shows "length (filter P [0..<q]) < length (filter P [0..<n])"
proof -
  have "[0..<n] = [0..<q] @ q # [Suc q..<n]"
    using assms(1) by (metis less_imp_le_nat le_add_diff_inverse upt_add_eq_append upt_conv_Cons zero_le)
  with assms(2) show ?thesis by simp
qed

lemma mset_map_split:
  "mset (map g xs) = mset (map g (filter P xs)) + mset (map g (filter (\<lambda>x. \<not> P x) xs))"
  by (induction xs) auto

lemma shuffled_deck_facts:
  assumes "unit_source rnd"
  shows "distinct (fst (shuffleInPlace rnd k (makeDeck K)))"
    and "set (fst (shuffleInPlace rnd k (makeDeck K))) = set ALL_CARDS - K"
    and "length (fst (shuffleInPlace rnd k (makeDeck K))) = length (makeDeck K)"
  using shuffleInPlace_facts [OF assms(1), of k "makeDeck K"]
  by (simp_all add: distinct_makeDeck set_makeDeck)

lemma simBoard_mset:
  fixes D :: "jsval list" and board :: "jsval list"
  assumes "length board \<le> 5" and "length (unknown_slots board) \<le> length D"
  defines "g \<equiv> \<lambda>q. if truthy (js_get board q) then js_get board q
                      else js_get D (length (filter (\<lambda>q'. \<not> truthy (js_get board q')) [0..<q]))"
  shows "map g (unknown_slots board) = take (length (unknown_slots board)) D"
    and "mset (map g [0..<5]) = mset (filter truthy board) + mset (take (length (unknown_slots board)) D)"
proof -
  let ?P = "\<lambda>q. \<not> truthy (js_get board q)"
  have "map g (unknown_slots board) = map (js_get D) (map (\<lambda>q. length (filter ?P [0..<q])) (filter ?P [0..<5]))"
    unfolding unknown_slots_def g_def by (simp add: comp_def cong: map_cong)
  also have "\<dots> = map (js_get D) [0..<length (unknown_slots board)]"
    unfolding filter_positions unknown_slots_def ..
  also have "\<dots> = take (length (unknown_slots board)) D"
    using map_js_get_take_drop [OF assms(2), of 0] by simp
  finally show u: "map g (unknown_slots board) = take (length (unknown_slots board)) D" .
  have "map g (filter (\<lambda>q. truthy (js_get board q)) [0..<5])
          = map (js_get board) (filter (\<lambda>q. truthy (js_get board q)) [0..<5])"
    unfolding g_def by (simp cong: map_cong)
  also have "\<dots> = filter truthy board"
    using filter_truthy_slots [OF assms(1)] by simp
  finally have kn: "map g (filter (\<lambda>q. truthy (js_get board q)) [0..<5]) = filter truthy board" .
  show "mset (map g [0..<5]) = mset (filter truthy board) + mset (take (length (unknown_slots board)) D)"
    using mset_map_split [of g "[0..<5]" "\<lambda>q. truthy (js_get board q)"] u kn
    unfolding unknown_slots_def by simp
qed

lemma trial_cards:
  fixes rnd :: rand and k :: nat
  assumes v: "valid_request players hero board" and h2: "length hero = 2"
    and b5: "length board \<le> 5" and u: "unit_source rnd"
  defines "known \<equiv> set (filter truthy (hero @ board))"
  defines "deck \<equiv> fst (shuffleInPlace rnd k (makeDeck known))"
  shows "\<exists>simBoard opponents idx.
           deal deck players board = (simBoard, opponents, idx)
           \<and> idx = nat (players - 1) * 2 + length (unknown_slots board)
           \<and> idx \<le> length deck
           \<and> length simBoard = 5
           \<and> length opponents = nat (players - 1)
           \<and> (\<forall>h \<in> set opponents. length h = 2)
           \<and> (\<forall>i < 5. truthy (js_get board i) \<longrightarrow> simBoard ! i = board ! i)
           \<and> map (\<lambda>i. simBoard ! i) (unknown_slots board) @ concat opponents = take idx deck
           \<and> distinct (hero @ simBoard @ concat opponents)
           \<and> (\<forall>c \<in> set (hero @ simBoard @ concat opponents). truthy c)"
proof -
  let ?u = "length (unknown_slots board)"
  let ?n = "nat (players - 1)"
  let ?g = "\<lambda>q. if truthy (js_get board q) then js_get board q
                 else js_get deck (length (filter (\<lambda>q'. \<not> truthy (js_get board q')) [0..<q]))"
  let ?sb = "map ?g [0..<5]"
  let ?ops = "map (\<lambda>m. [js_get deck (?u + 2 * m), js_get deck (?u + 2 * m + 1)]) [0..<?n]"
  let ?idx = "?u + 2 * ?n"
  have dl: "deal deck players board = (?sb, ?ops, ?idx)"
    by (rule deal_spec [OF b5])
  have D: "distinct deck" "set deck = set ALL_CARDS - known" "length deck = length (makeDeck known)"
    unfolding deck_def by (rule shuffled_deck_facts [OF u])+
  have le: "?idx \<le> length deck"
    using required_le_deck [OF v h2 b5] D(3) unfolding known_def by simp
  then have ule: "?u \<le> length deck" by simp
  have cc: "concat ?ops = take (2 * ?n) (drop ?u deck)"
    using concat_pairs [of "js_get deck" ?u ?n] map_js_get_take_drop [OF le, of ?u] by simp
  have un: "map ?g (unknown_slots board) = take ?u deck"
    and ms: "mset ?sb = mset (filter truthy board) + mset (take ?u deck)"
    using simBoard_mset [OF b5 ule] by blast+
  have un': "map (\<lambda>i. ?sb ! i) (unknown_slots board) = map ?g (unknown_slots board)"
    unfolding unknown_slots_def by (rule map_cong) (auto simp del: upt_Suc)
  have drawn: "map (\<lambda>i. ?sb ! i) (unknown_slots board) @ concat ?ops = take ?idx deck"
    unfolding un' un cc by (simp add: take_add)
  have kept: "\<forall>i < 5. truthy (js_get board i) \<longrightarrow> ?sb ! i = board ! i"
    by (auto simp: js_get_def simp del: upt_Suc split: if_splits)
  have hero: "filter truthy hero = hero"
    using v h2 unfolding valid_request_def by (intro hero_all_truthy) auto
  have "mset (hero @ ?sb @ concat ?ops) = mset hero + (mset ?sb + mset (concat ?ops))"
    by (simp only: mset_append)
  also have "\<dots> = mset hero + ((mset (filter truthy board) + mset (take ?u deck))
                       + mset (take (2 * ?n) (drop ?u deck)))"
    by (simp only: ms cc)
  also have "\<dots> = mset hero + mset (filter truthy board)
                       + (mset (take ?u deck) + mset (take (2 * ?n) (drop ?u deck)))"
    by (simp only: add.assoc)
  also have "mset (take ?u deck) + mset (take (2 * ?n) (drop ?u deck)) = mset (take ?idx deck)"
    by (simp add: take_add)
  also have "mset hero + mset (filter truthy board) = mset (filter truthy (hero @ board))"
    using hero by simp
  finally have all: "mset (hero @ ?sb @ concat ?ops) = mset (filter truthy (hero @ board) @ take ?idx deck)"
    by simp
  have disj: "set (filter truthy (hero @ board)) \<inter> set (take ?idx deck) = {}"
  proof -
    have "set (take ?idx deck) \<subseteq> set deck" by (rule set_take_subset)
    with D(2) show ?thesis unfolding known_def by blast
  qed
  have "distinct (filter truthy (hero @ board))"
    using v unfolding valid_request_def by blast
  moreover have "distinct (take ?idx deck)"
    using D(1) by (rule distinct_take)
  ultimately have "distinct (filter truthy (hero @ board) @ take ?idx deck)"
    using disj by (simp only: distinct_append simp_thms)
  then have dist: "distinct (hero @ ?sb @ concat ?ops)"
    by (rule iffD2 [OF mset_eq_imp_distinct_iff [OF all]])
  have tr: "\<forall>c \<in> set (hero @ ?sb @ concat ?ops). truthy c"
  proof
    fix c assume "c \<in> set (hero @ ?sb @ concat ?ops)"
    then have "c \<in> set (filter truthy (hero @ board) @ take ?idx deck)"
      by (simp only: mset_eq_setD [OF all])
    then have "c \<in> set (filter truthy (hero @ board)) \<or> c \<in> set (take ?idx deck)"
      by (simp only: set_append Un_iff)
    then have "truthy c \<or> c \<in> set deck"
      using set_take_subset [of ?idx deck] by auto
    with D(2) show "truthy c"
      using truthy_ALL_CARDS by blast
  qed
  have "length ?sb = 5" "length ?ops = ?n" "\<forall>h \<in> set ?ops. length h = 2"
    by auto
  moreover have "?idx = nat (players - 1) * 2 + length (unknown_slots board)"
    by simp
  ultimately show ?thesis
    using dl le kept drawn dist tr
    by (intro exI [of _ ?sb] exI [of _ ?ops] exI [of _ ?idx] conjI) assumption+
qed

text \<open>
  C8. For a request that passes validation (two hole cards, a board of at most five
  slots), the cards a trial needs, two for each of the \<open>players - 1\<close> opponents and one
  for each unknown board slot, are at most \<open>52 - |known|\<close>, which is at most the size of
  the deck after exclusion. The cursor ends at that number, so every read of the deck is
  in bounds: no card drawn is \<^verbatim>\<open>undefined\<close>, and the shuffle picks its index within
  \<open>0..i\<close>.
\<close>

theorem required_cards_within_deck:
  fixes rnd :: rand and k :: nat
  assumes "valid_request players hero board" and "length hero = 2" and "length board \<le> 5"
    and "unit_source rnd"
  shows "\<exists>simBoard opponents idx.
           deal (fst (shuffleInPlace rnd k (makeDeck (set (filter truthy (hero @ board))))))
             players board = (simBoard, opponents, idx)
           \<and> idx = nat (players - 1) * 2 + length (unknown_slots board)
           \<and> idx \<le> 52 - card (set (filter truthy (hero @ board)))
           \<and> 52 - card (set (filter truthy (hero @ board)))
                \<le> length (makeDeck (set (filter truthy (hero @ board))))
           \<and> length (fst (shuffleInPlace rnd k (makeDeck (set (filter truthy (hero @ board))))))
                = length (makeDeck (set (filter truthy (hero @ board))))
           \<and> (\<forall>c \<in> set simBoard \<union> set (concat opponents). c \<noteq> Undefined)
           \<and> (\<forall>k' i. pick rnd k' i \<le> i)"
proof -
  let ?K = "set (filter truthy (hero @ board))"
  let ?deck = "fst (shuffleInPlace rnd k (makeDeck ?K))"
  from trial_cards [OF assms, of k]
  obtain simBoard opponents idx where dl: "deal ?deck players board = (simBoard, opponents, idx)"
    and idx: "idx = nat (players - 1) * 2 + length (unknown_slots board)"
    and tr: "\<forall>c \<in> set (hero @ simBoard @ concat opponents). truthy c"
    by blast
  have "\<forall>c \<in> set simBoard \<union> set (concat opponents). c \<noteq> Undefined"
  proof
    fix c assume "c \<in> set simBoard \<union> set (concat opponents)"
    with tr have "truthy c" by simp
    then show "c \<noteq> Undefined" by auto
  qed
  moreover have "\<forall>k' i. pick rnd k' i \<le> i"
    using assms(4) by (simp add: pick_le unit_source_def)
  moreover have "length ?deck = length (makeDeck ?K)"
    by (rule shuffled_deck_facts [OF assms(4)])
  moreover note dl idx required_le_unknown [OF assms(1-3)] deck_at_least [of "filter truthy (hero @ board)"]
  ultimately show ?thesis
    by (intro exI [of _ simBoard] exI [of _ opponents] exI [of _ idx]) (simp only: simp_thms)
qed

theorem required_cards_within_deck_witness:
  "valid_request 10 [Str ''As'', Str ''Ks''] [Str ''Qd'', Str ''Jd'', Str ''Td'', Str '''', Str '''']
   \<and> length [Str ''As'', Str ''Ks''] = 2
   \<and> length [Str ''Qd'', Str ''Jd'', Str ''Td'', Str '''', Str ''''] \<le> 5
   \<and> unit_source (\<lambda>k. 0)
   \<and> (\<exists>simBoard opponents idx.
         deal (fst (shuffleInPlace (\<lambda>k. 0) 0 (makeDeck (set (filter truthy
                 ([Str ''As'', Str ''Ks''] @ [Str ''Qd'', Str ''Jd'', Str ''Td'', Str '''', Str '''']))))))
           10 [Str ''Qd'', Str ''Jd'', Str ''Td'', Str '''', Str ''''] = (simBoard, opponents, idx)
         \<and> idx = 20 \<and> idx \<le> 47
         \<and> (\<forall>c \<in> set simBoard \<union> set (concat opponents). c \<noteq> Undefined))"
proof -
  let ?H = "[Str ''As'', Str ''Ks'']"
  let ?B = "[Str ''Qd'', Str ''Jd'', Str ''Td'', Str '''', Str '''']"
  have v: "valid_request 10 ?H ?B"
    by (simp add: valid_request_def js_get_def)
  have h: "length ?H = 2" and b: "length ?B \<le> 5"
    by simp_all
  have u: "unit_source (\<lambda>k. 0)"
    by (simp add: unit_source_def)
  have slots: "length (unknown_slots ?B) = 2"
    by (simp add: unknown_slots_def js_get_def upt_rec)
  have known: "card (set (filter truthy (?H @ ?B))) = 5"
    by simp
  from required_cards_within_deck [OF v h b u, of 0]
  obtain simBoard opponents idx where
    "deal (fst (shuffleInPlace (\<lambda>k. 0) 0 (makeDeck (set (filter truthy (?H @ ?B)))))) 10 ?B
       = (simBoard, opponents, idx)"
    and "idx = nat (10 - 1) * 2 + length (unknown_slots ?B)"
    and "idx \<le> 52 - card (set (filter truthy (?H @ ?B)))"
    and "\<forall>c \<in> set simBoard \<union> set (concat opponents). c \<noteq> Undefined"
    by blast
  then have "deal (fst (shuffleInPlace (\<lambda>k. 0) 0 (makeDeck (set (filter truthy (?H @ ?B)))))) 10 ?B
       = (simBoard, opponents, idx)
         \<and> idx = 20 \<and> idx \<le> 47
         \<and> (\<forall>c \<in> set simBoard \<union> set (concat opponents). c \<noteq> Undefined)"
    unfolding slots known by simp
  with v h b u show ?thesis by blast
qed


text \<open>
  C7. In a trial of a validated request, hero's two cards, the two cards of each
  opponent and the five cards of the completed board are pairwise different. The known
  board cards stay in place; the cards sampled for the unknown slots and then for the
  opponents are the first \<open>idx\<close> cards of the shuffled deck in order, each position read
  once by the advancing cursor; the shuffled deck has no card twice and none of the
  known cards.
\<close>

theorem trial_cards_disjoint:
  fixes rnd :: rand and k :: nat
  assumes "valid_request players hero board" and "length hero = 2" and "length board \<le> 5"
    and "unit_source rnd"
  shows "\<exists>simBoard opponents idx.
           deal (fst (shuffleInPlace rnd k (makeDeck (set (filter truthy (hero @ board))))))
             players board = (simBoard, opponents, idx)
           \<and> length simBoard = 5
           \<and> length opponents = nat (players - 1)
           \<and> (\<forall>h \<in> set opponents. length h = 2)
           \<and> distinct (hero @ simBoard @ concat opponents)
           \<and> (\<forall>i < 5. truthy (js_get board i) \<longrightarrow> simBoard ! i = board ! i)
           \<and> map (\<lambda>i. simBoard ! i) (unknown_slots board) @ concat opponents
               = take idx (fst (shuffleInPlace rnd k (makeDeck (set (filter truthy (hero @ board))))))
           \<and> idx \<le> length (fst (shuffleInPlace rnd k (makeDeck (set (filter truthy (hero @ board))))))
           \<and> distinct (fst (shuffleInPlace rnd k (makeDeck (set (filter truthy (hero @ board))))))
           \<and> set (fst (shuffleInPlace rnd k (makeDeck (set (filter truthy (hero @ board))))))
                \<inter> set (filter truthy (hero @ board)) = {}"
proof -
  let ?K = "set (filter truthy (hero @ board))"
  let ?deck = "fst (shuffleInPlace rnd k (makeDeck ?K))"
  from trial_cards [OF assms, of k]
  obtain simBoard opponents idx where "deal ?deck players board = (simBoard, opponents, idx)"
    and "idx \<le> length ?deck"
    and "length simBoard = 5"
    and "length opponents = nat (players - 1)"
    and "\<forall>h \<in> set opponents. length h = 2"
    and "\<forall>i < 5. truthy (js_get board i) \<longrightarrow> simBoard ! i = board ! i"
    and "map (\<lambda>i. simBoard ! i) (unknown_slots board) @ concat opponents = take idx ?deck"
    and "distinct (hero @ simBoard @ concat opponents)"
    by blast
  moreover have "distinct ?deck"
    by (rule shuffled_deck_facts [OF assms(4)])
  moreover have "set ?deck \<inter> ?K = {}"
    using shuffled_deck_facts(2) [OF assms(4), of k ?K] by blast
  ultimately show ?thesis
    by (intro exI [of _ simBoard] exI [of _ opponents] exI [of _ idx]) (simp only: simp_thms)
qed

theorem trial_cards_disjoint_witness:
  "valid_request 10 [Str ''As'', Str ''Ks''] [Str ''Qd'', Str ''Jd'', Str ''Td'', Str '''', Str '''']
   \<and> length [Str ''As'', Str ''Ks''] = 2
   \<and> length [Str ''Qd'', Str ''Jd'', Str ''Td'', Str '''', Str ''''] \<le> 5
   \<and> unit_source (\<lambda>k. 0)
   \<and> (\<exists>simBoard opponents idx.
         deal (fst (shuffleInPlace (\<lambda>k. 0) 0 (makeDeck (set (filter truthy
                 ([Str ''As'', Str ''Ks''] @ [Str ''Qd'', Str ''Jd'', Str ''Td'', Str '''', Str '''']))))))
           10 [Str ''Qd'', Str ''Jd'', Str ''Td'', Str '''', Str ''''] = (simBoard, opponents, idx)
         \<and> length opponents = 9
         \<and> distinct ([Str ''As'', Str ''Ks''] @ simBoard @ concat opponents)
         \<and> simBoard ! 0 = Str ''Qd'' \<and> simBoard ! 1 = Str ''Jd'' \<and> simBoard ! 2 = Str ''Td''
         \<and> set (fst (shuffleInPlace (\<lambda>k. 0) 0 (makeDeck (set (filter truthy
                 ([Str ''As'', Str ''Ks''] @ [Str ''Qd'', Str ''Jd'', Str ''Td'', Str '''', Str '''']))))))
              \<inter> {Str ''As'', Str ''Ks'', Str ''Qd'', Str ''Jd'', Str ''Td''} = {})"
proof -
  let ?H = "[Str ''As'', Str ''Ks'']"
  let ?B = "[Str ''Qd'', Str ''Jd'', Str ''Td'', Str '''', Str '''']"
  let ?D = "fst (shuffleInPlace (\<lambda>k. 0) 0 (makeDeck (set (filter truthy (?H @ ?B)))))"
  have v: "valid_request 10 ?H ?B"
    by (simp add: valid_request_def js_get_def)
  have h: "length ?H = 2" and b: "length ?B \<le> 5"
    by simp_all
  have u: "unit_source (\<lambda>k. 0)"
    by (simp add: unit_source_def)
  have known: "set (filter truthy (?H @ ?B)) = {Str ''As'', Str ''Ks'', Str ''Qd'', Str ''Jd'', Str ''Td''}"
    by simp
  have t: "truthy (js_get ?B 0)" "truthy (js_get ?B 1)" "truthy (js_get ?B 2)"
    by (simp_all add: js_get_def)
  from trial_cards_disjoint [OF v h b u, of 0]
  obtain simBoard opponents idx where
    d: "deal ?D 10 ?B = (simBoard, opponents, idx)"
    and o: "length opponents = nat (10 - 1)"
    and dist: "distinct (?H @ simBoard @ concat opponents)"
    and kept: "\<forall>i < 5. truthy (js_get ?B i) \<longrightarrow> simBoard ! i = ?B ! i"
    and disj: "set ?D \<inter> set (filter truthy (?H @ ?B)) = {}"
    by blast
  from kept t have "simBoard ! 0 = Str ''Qd''" "simBoard ! 1 = Str ''Jd''" "simBoard ! 2 = Str ''Td''"
    by auto
  moreover from o have "length opponents = 9" by simp
  moreover from disj have "set ?D \<inter> {Str ''As'', Str ''Ks'', Str ''Qd'', Str ''Jd'', Str ''Td''} = {}"
    unfolding known .
  ultimately show ?thesis
    using v h b u d dist by blast
qed

section \<open>Choice lists and permutations\<close>

lemma picks_Suc: "picks rnd k (Suc i) = pick rnd k (Suc i) # picks rnd (Suc k) i"
proof -
  have "[0..<Suc i] = 0 # map Suc [0..<i]"
    by (simp add: upt_conv_Cons map_Suc_upt del: upt_Suc)
  then show ?thesis
    by (simp add: picks_def comp_def del: upt_Suc)
qed

lemma shuffle_loop_by: "fst (shuffle_loop rnd k i arr) = shuffle_by (picks rnd k i) i arr"
  by (induction i arbitrary: k arr) (simp_all add: picks_Suc Let_def)

lemma picks_valid:
  assumes "unit_source rnd"
  shows "picks rnd k i \<in> set (choice_vectors i)"
proof (induction i arbitrary: k)
  case 0
  show ?case by (simp add: picks_def)
next
  case (Suc i)
  have "pick rnd k (Suc i) \<le> Suc i"
    using assms by (intro pick_le) (simp_all add: unit_source_def)
  with Suc [of "Suc k"] show ?case
    by (auto simp: picks_Suc simp del: upt_Suc intro!: bexI [of _ "pick rnd k (Suc i)"])
qed

lemma length_choice_vectors: "length (choice_vectors i) = fact (Suc i)"
proof (induction i)
  case 0
  show ?case by simp
next
  case (Suc i)
  have "length (choice_vectors (Suc i))
          = sum_list (map (\<lambda>j. length (choice_vectors i)) [0..<Suc i + 1])"
    by (simp add: length_concat comp_def del: upt_Suc)
  also have "\<dots> = (Suc i + 1) * length (choice_vectors i)"
    by (simp add: sum_list_triv del: upt_Suc)
  finally show ?case
    using Suc by simp
qed

lemma hits_0: "hits 0 arr ys = (if arr = ys then 1 else 0)"
  by (simp add: hits_def)

lemma hits_Suc:
  "hits (Suc i) arr ys = sum_list (map (\<lambda>j. hits i (swap arr (Suc i) j) ys) [0..<Suc i + 1])"
proof -
  have "filter (\<lambda>js. shuffle_by js (Suc i) arr = ys) (map ((#) j) (choice_vectors i))
          = map ((#) j) (filter (\<lambda>js. shuffle_by js i (swap arr (Suc i) j) = ys) (choice_vectors i))" for j
    by (simp add: filter_map comp_def)
  then show ?thesis
    unfolding hits_def
    by (simp add: filter_concat length_concat comp_def del: upt_Suc)
qed

lemma reach_0:
  assumes "arr \<noteq> []"
  shows "reach 0 arr ys \<longleftrightarrow> arr = ys"
proof
  assume r: "reach 0 arr ys"
  then have l: "length ys = length arr" by (simp add: reach_def)
  with assms obtain a as b bs where "arr = a # as" "ys = b # bs"
    by (cases arr; cases ys) auto
  with r show "arr = ys" by (simp add: reach_def)
next
  assume "arr = ys"
  then show "reach 0 arr ys" by (simp add: reach_def)
qed

lemma mset_take_Suc:
  assumes "n < length xs"
  shows "mset (take (Suc n) xs) = mset (take n xs) + {#xs ! n#}"
  using assms by (simp add: take_Suc_conv_app_nth)

lemma swap_facts:
  assumes "Suc i < length arr" and "j \<le> Suc i"
  shows "length (swap arr (Suc i) j) = length arr"
    and "swap arr (Suc i) j ! Suc i = arr ! j"
    and "drop (Suc (Suc i)) (swap arr (Suc i) j) = drop (Suc (Suc i)) arr"
    and "mset (take (Suc (Suc i)) (swap arr (Suc i) j)) = mset (take (Suc (Suc i)) arr)"
    and "mset (swap arr (Suc i) j) = mset arr"
proof -
  from assms have j: "j < length arr" by simp
  have sw: "swap arr (Suc i) j = arr[Suc i := arr ! j, j := arr ! Suc i]"
    by (rule swap_in_range [OF assms(1) j])
  show "length (swap arr (Suc i) j) = length arr"
    by (simp add: sw)
  show "swap arr (Suc i) j ! Suc i = arr ! j"
    unfolding sw using assms j by (cases "j = Suc i") simp_all
  show d: "drop (Suc (Suc i)) (swap arr (Suc i) j) = drop (Suc (Suc i)) arr"
    using assms by (simp add: sw)
  show m: "mset (swap arr (Suc i) j) = mset arr"
    by (rule mset_swap_js [OF assms(1) j])
  have "mset (take (Suc (Suc i)) (swap arr (Suc i) j)) + mset (drop (Suc (Suc i)) (swap arr (Suc i) j))
          = mset (take (Suc (Suc i)) arr) + mset (drop (Suc (Suc i)) arr)"
    by (simp only: mset_append [symmetric] append_take_drop_id m)
  then show "mset (take (Suc (Suc i)) (swap arr (Suc i) j)) = mset (take (Suc (Suc i)) arr)"
    unfolding d by simp
qed

lemma reach_step:
  assumes "Suc i < length arr" and "j \<le> Suc i"
  shows "reach i (swap arr (Suc i) j) ys \<longleftrightarrow> reach (Suc i) arr ys \<and> ys ! Suc i = arr ! j"
proof -
  let ?arr = "swap arr (Suc i) j"
  note f = swap_facts [OF assms]
  have il: "Suc i < length ?arr" using assms(1) f(1) by simp
  have dr: "drop (Suc i) xs = xs ! Suc i # drop (Suc (Suc i)) xs" if "Suc i < length xs" for xs :: "jsval list"
    using that by (simp add: Cons_nth_drop_Suc)
  show ?thesis
  proof (cases "length ys = length arr")
    case False
    then show ?thesis by (simp add: reach_def f(1))
  next
    case True
    with assms(1) have yl: "Suc i < length ys" by simp
    have "reach i ?arr ys \<longleftrightarrow>
            mset (take (Suc i) ys) = mset (take (Suc i) ?arr)
            \<and> ys ! Suc i = arr ! j \<and> drop (Suc (Suc i)) ys = drop (Suc (Suc i)) arr"
      unfolding reach_def using True f(1) dr [OF yl] dr [OF il] f(2) f(3) by auto
    also have "\<dots> \<longleftrightarrow>
            mset (take (Suc (Suc i)) ys) = mset (take (Suc (Suc i)) ?arr)
            \<and> ys ! Suc i = arr ! j \<and> drop (Suc (Suc i)) ys = drop (Suc (Suc i)) arr"
      using mset_take_Suc [OF yl] mset_take_Suc [OF il] f(2) by auto
    also have "\<dots> \<longleftrightarrow> reach (Suc i) arr ys \<and> ys ! Suc i = arr ! j"
      unfolding reach_def f(4) using True by auto
    finally show ?thesis .
  qed
qed

lemma count_index: "length (filter (\<lambda>j. j = j0) [0..<n]) = (if j0 < n then 1 else 0)"
  by (induction n) auto

lemma sum_indicator:
  "sum_list (map (\<lambda>j. if P j then 1 else 0) xs) = length (filter P xs)"
  by (induction xs) auto

lemma hits_reach:
  assumes "i < length arr" and "distinct arr"
  shows "hits i arr ys = (if reach i arr ys then 1 else 0)"
  using assms
proof (induction i arbitrary: arr)
  case 0
  then have "arr \<noteq> []" by auto
  then show ?case by (simp add: hits_0 reach_0)
next
  case (Suc i)
  have ih: "hits i (swap arr (Suc i) j) ys = (if reach (Suc i) arr ys \<and> ys ! Suc i = arr ! j then 1 else 0)"
    if "j \<in> set [0..<Suc i + 1]" for j
  proof -
    from that have j: "j \<le> Suc i" by (simp del: upt_Suc)
    note f = swap_facts [OF Suc.prems(1) j]
    have "distinct (swap arr (Suc i) j)"
      using mset_eq_imp_distinct_iff [OF f(5)] Suc.prems(2) by (simp only:)
    moreover have "i < length (swap arr (Suc i) j)"
      using f(1) Suc.prems(1) by simp
    ultimately show ?thesis
      using Suc.IH [of "swap arr (Suc i) j"] reach_step [OF Suc.prems(1) j, of ys] by simp
  qed
  have "hits (Suc i) arr ys
          = sum_list (map (\<lambda>j. if reach (Suc i) arr ys \<and> ys ! Suc i = arr ! j then 1 else 0) [0..<Suc i + 1])"
    unfolding hits_Suc using ih by (intro arg_cong [of _ _ sum_list] map_cong refl)
  also have "\<dots> = length (filter (\<lambda>j. reach (Suc i) arr ys \<and> ys ! Suc i = arr ! j) [0..<Suc i + 1])"
    by (rule sum_indicator)
  also have "\<dots> = (if reach (Suc i) arr ys then 1 else 0)"
  proof (cases "reach (Suc i) arr ys")
    case False
    then show ?thesis by simp
  next
    case True
    then have l: "length ys = length arr"
      and m: "mset (take (Suc (Suc i)) ys) = mset (take (Suc (Suc i)) arr)"
      by (simp_all add: reach_def)
    from l Suc.prems(1) have "take (Suc (Suc i)) ys ! Suc i = ys ! Suc i"
      and "Suc i < length (take (Suc (Suc i)) ys)"
      by simp_all
    then have "ys ! Suc i \<in> set (take (Suc (Suc i)) ys)"
      using nth_mem by metis
    then have "ys ! Suc i \<in> set (take (Suc (Suc i)) arr)"
      by (simp only: mset_eq_setD [OF m])
    then obtain j0 where j0: "j0 < Suc (Suc i)" "arr ! j0 = ys ! Suc i"
      using Suc.prems(1) by (auto simp: in_set_conv_nth)
    have "(reach (Suc i) arr ys \<and> ys ! Suc i = arr ! j) \<longleftrightarrow> j = j0" if "j \<in> set [0..<Suc i + 1]" for j
    proof -
      from that Suc.prems(1) j0(1) have "j < length arr" "j0 < length arr"
        by (simp_all del: upt_Suc)
      with nth_eq_iff_index_eq [OF Suc.prems(2), of j j0] j0(2) True show ?thesis
        by auto
    qed
    then have "filter (\<lambda>j. reach (Suc i) arr ys \<and> ys ! Suc i = arr ! j) [0..<Suc i + 1]
                 = filter (\<lambda>j. j = j0) [0..<Suc i + 1]"
      by (intro filter_cong refl)
    then have "length (filter (\<lambda>j. reach (Suc i) arr ys \<and> ys ! Suc i = arr ! j) [0..<Suc i + 1])
                 = length (filter (\<lambda>j. j = j0) [0..<Suc i + 1])"
      by (rule arg_cong)
    also have "\<dots> = (if j0 < Suc i + 1 then 1 else 0)"
      by (rule count_index)
    also have "\<dots> = 1"
      using j0(1) by simp
    finally show ?thesis
      using True by (simp only: if_True)
  qed
  finally show ?case .
qed

lemma reach_last:
  assumes "arr \<noteq> []"
  shows "reach (length arr - 1) arr ys \<longleftrightarrow> mset ys = mset arr"
proof -
  from assms have n: "Suc (length arr - 1) = length arr" by simp
  show ?thesis
  proof
    assume "reach (length arr - 1) arr ys"
    then have "length ys = length arr" and "mset (take (length arr) ys) = mset (take (length arr) arr)"
      unfolding reach_def n by blast+
    then show "mset ys = mset arr"
      by simp
  next
    assume m: "mset ys = mset arr"
    then have "length ys = length arr"
      by (rule mset_eq_length)
    with m show "reach (length arr - 1) arr ys"
      unfolding reach_def n by simp
  qed
qed

lemma hits_shuffle:
  assumes "distinct arr"
  shows "hits (length arr - 1) arr ys = (if mset ys = mset arr then 1 else 0)"
proof (cases "arr = []")
  case True
  then show ?thesis by (auto simp: hits_0)
next
  case False
  then have "length arr - 1 < length arr" by simp
  from hits_reach [OF this assms, of ys] reach_last [OF False, of ys] show ?thesis
    by simp
qed

lemma length_choice_vectors_shuffle: "length (choice_vectors (length arr - 1)) = fact (length arr)"
proof (cases "arr = []")
  case True
  then show ?thesis by simp
next
  case False
  then obtain n where n: "length arr = Suc n"
    by (cases arr) auto
  from length_choice_vectors [of n] show ?thesis
    unfolding n by simp
qed

section \<open>The shuffle under a uniform source of doubles\<close>

lemma card_doubles: "finite (doubles b)" "card (doubles b) = 2 ^ b"
proof -
  have "inj_on (\<lambda>m. real m / 2 ^ b) {..<2 ^ b}"
    by (rule inj_onI) simp
  then show "card (doubles b) = 2 ^ b"
    unfolding doubles_def by (simp add: card_image)
  show "finite (doubles b)"
    unfolding doubles_def by simp
qed

lemma doubles_unit:
  assumes "x \<in> doubles b" and "b \<le> 53"
  shows "0 \<le> x" and "x \<le> 1 - 1 / 2 ^ 53"
proof -
  from assms(1) obtain m :: nat where m: "m < 2 ^ b" and x: "x = real m / 2 ^ b"
    unfolding doubles_def by auto
  show "0 \<le> x" by (simp add: x)
  from m have "real m + 1 \<le> 2 ^ b"
    by (metis Suc_leI of_nat_Suc of_nat_le_iff of_nat_numeral of_nat_power add.commute plus_1_eq_Suc)
  then have "x \<le> 1 - 1 / 2 ^ b"
    by (simp add: x field_simps)
  also have "\<dots> \<le> 1 - 1 / 2 ^ 53"
  proof -
    have "(2::real) ^ b \<le> 2 ^ 53"
      using assms(2) by (intro power_increasing) simp_all
    then have "1 / (2::real) ^ 53 \<le> 1 / 2 ^ b"
      by (intro divide_left_mono) simp_all
    then show ?thesis by simp
  qed
  finally show "x \<le> 1 - 1 / 2 ^ 53" .
qed

lemma three_orders:
  assumes "x \<in> doubles b" and "y \<in> doubles b" and "b \<le> 53"
  shows "fst (shuffleInPlace (\<lambda>k. if k = 0 then x else y) 0 [p, q, r])
           \<in> {[p, q, r], [p, r, q], [q, p, r], [q, r, p], [r, p, q], [r, q, p]}"
proof -
  let ?rnd = "\<lambda>k::nat. if k = 0 then x else y"
  have u: "unit_source ?rnd"
    using doubles_unit [OF assms(1,3)] doubles_unit [OF assms(2,3)]
    by (simp add: unit_source_def)
  have "picks ?rnd 0 2 \<in> set (choice_vectors 2)"
    using u by (rule picks_valid)
  then have "picks ?rnd 0 2 \<in> {[0, 0], [0, 1], [1, 0], [1, 1], [2, 0], [2, 1]}"
    by (simp add: numeral_2_eq_2)
  moreover have "length [p, q, r] - 1 = 2"
    by simp
  then have "fst (shuffleInPlace ?rnd 0 [p, q, r]) = shuffle_by (picks ?rnd 0 2) 2 [p, q, r]"
    by (simp only: shuffleInPlace_def shuffle_loop_by)
  ultimately show ?thesis
    by (auto simp: numeral_2_eq_2 swap_def js_get_def js_set_def Let_def)
qed

lemma not_three_dvd: "\<not> (3::nat) dvd 2 ^ n"
proof
  assume d: "(3::nat) dvd 2 ^ n"
  have "coprime (Suc 2) 2"
    by (rule coprime_Suc_left_nat)
  then have "coprime (3::nat) 2"
    by (simp only: numeral_3_eq_3 numeral_2_eq_2)
  then have "coprime (3::nat) (2 ^ n)"
    by (simp add: coprime_power_right_iff)
  from coprime_common_divisor [OF this dvd_refl d] show False
    by simp
qed

lemma card_fibres:
  assumes "finite S" and "finite T" and "g ` S \<subseteq> T"
  shows "(\<Sum>y \<in> T. card {x \<in> S. g x = y}) = card S"
  using sum.group [OF assms, of "\<lambda>x. 1::nat"] by simp

lemma order_count_total:
  assumes "b \<le> 53"
  shows "(\<Sum>ys \<in> {[p, q, r], [p, r, q], [q, p, r], [q, r, p], [r, p, q], [r, q, p]}.
            order_count b [p, q, r] ys) = 2 ^ b * 2 ^ b"
proof -
  let ?S = "doubles b \<times> doubles b"
  let ?g = "\<lambda>(x, y). fst (shuffleInPlace (\<lambda>k. if k = 0 then x else y) 0 [p, q, r])"
  let ?T = "{[p, q, r], [p, r, q], [q, p, r], [q, r, p], [r, p, q], [r, q, p]}"
  have oc: "order_count b [p, q, r] ys = card {s \<in> ?S. ?g s = ys}" for ys
  proof -
    have "{(x, y). x \<in> doubles b \<and> y \<in> doubles b
                   \<and> fst (shuffleInPlace (\<lambda>k. if k = 0 then x else y) 0 [p, q, r]) = ys}
            = {s \<in> ?S. ?g s = ys}"
      by auto
    then show ?thesis
      by (simp only: order_count_def)
  qed
  have "?g ` ?S \<subseteq> ?T"
    using three_orders [OF _ _ assms, of _ _ p q r] by (auto simp del: insert_iff)
  then have "(\<Sum>ys \<in> ?T. card {s \<in> ?S. ?g s = ys}) = card ?S"
    by (intro card_fibres) (simp_all add: card_doubles)
  then show ?thesis
    by (simp only: oc card_cartesian_product card_doubles)
qed

lemma index_count_total:
  assumes "b \<le> 53"
  shows "(\<Sum>j \<in> {..i}. index_count b i j) = 2 ^ b"
proof -
  let ?g = "\<lambda>x::real. pick (\<lambda>k. x) 0 i"
  have "?g ` doubles b \<subseteq> {..i}"
    using doubles_unit [OF _ assms] by (auto intro!: pick_le)
  then have "(\<Sum>j \<in> {..i}. card {x \<in> doubles b. ?g x = j}) = card (doubles b)"
    by (intro card_fibres) (simp_all add: card_doubles)
  then show ?thesis
    by (simp only: index_count_def card_doubles)
qed

lemma fl_eval_up:
  assumes "1 \<le> x / 2 ^ p" and "x / 2 ^ p < 2"
  shows "fl x = of_int (round_even (x * 2 ^ 52 / 2 ^ p)) * 2 ^ p / 2 ^ 52"
proof -
  have "0 < x / 2 ^ p"
    using assms(1) by linarith
  then have x: "0 < x"
    by (simp add: zero_less_divide_iff)
  have pw: "2 powr of_int (int p) = (2 ^ p :: real)"
    by (simp add: powr_realpow)
  have "\<lfloor>log 2 x\<rfloor> = int p"
  proof (rule expo_eq [OF x])
    show "2 powr of_int (int p) \<le> x"
      unfolding pw using assms(1) by (simp add: pos_le_divide_eq)
    have "2 powr of_int (int p + 1) = 2 powr of_int (int p) * (2::real) powr 1"
      by (simp only: of_int_add powr_add of_int_1)
    then have "2 powr of_int (int p + 1) = 2 * (2 ^ p :: real)"
      unfolding pw by simp
    then show "x < 2 powr of_int (int p + 1)"
      using assms(2) by (simp add: pos_divide_less_eq)
  qed
  then have u: "ulp x = 2 ^ p / 2 ^ 52"
    using pw by (simp add: ulp_eq [OF x])
  show ?thesis
    unfolding fl_pos_eq [OF x] u by simp
qed

lemma pick_off: "pick (\<lambda>k. 2573485501354569 / 2 ^ 52) 0 6 = 4"
proof -
  have "fl (2573485501354569 / 2 ^ 52 * 7) = 4"
    using fl_eval_up [of "2573485501354569 / 2 ^ 52 * 7" 1]
    by (simp add: round_even_def Let_def)
  then show ?thesis
    by (simp add: pick_def)
qed


lemma fl_ge_nat:
  assumes "real n \<le> y" and "y < 2 ^ 53"
  shows "real n \<le> fl y"
proof (cases "n = 0")
  case True
  from assms(1) have "0 \<le> y"
    by (rule order_trans [rotated]) simp
  then have "0 \<le> fl y" by (rule fl_nonneg)
  with True show ?thesis by simp
next
  case False
  then have "1 \<le> real n" by simp
  with assms(1) have y1: "1 \<le> y" by linarith
  then have y: "0 < y" by linarith
  define e where "e = \<lfloor>log 2 y\<rfloor>"
  have "0 \<le> log 2 y"
    using y1 by simp
  then have e0: "0 \<le> e"
    by (simp add: e_def)
  have "log 2 y < 53"
    using assms(2) y by (simp add: log_less_iff powr_realpow)
  then have e52: "e \<le> 52"
    unfolding e_def by linarith
  define k where "k = nat (52 - e)"
  have ek: "e - 52 = - int k"
    using e52 by (simp add: k_def)
  have u: "ulp y = 1 / 2 ^ k"
  proof -
    have "ulp y = 2 powr of_int (e - 52)"
      using y by (simp add: ulp_def e_def)
    also have "\<dots> = 2 powr (- real k)"
      by (simp add: ek)
    also have "\<dots> = 1 / 2 ^ k"
      by (simp add: powr_minus powr_realpow divide_inverse)
    finally show ?thesis .
  qed
  have "real_of_int (int (n * 2 ^ k)) \<le> y / ulp y"
    using assms(1) by (simp add: u)
  then have "int (n * 2 ^ k) \<le> round_even (y / ulp y)"
    by (rule round_even_ge)
  then have "real_of_int (int (n * 2 ^ k)) \<le> of_int (round_even (y / ulp y))"
    by (simp only: of_int_le_iff)
  then have "real n * 2 ^ k \<le> of_int (round_even (y / ulp y))"
    by simp
  then have "real n * 2 ^ k / 2 ^ k \<le> of_int (round_even (y / ulp y)) / 2 ^ k"
    by (rule divide_right_mono) simp
  then show ?thesis
    by (simp add: fl_pos_eq [OF y] u)
qed

lemma pick_from_product:
  assumes "0 \<le> rnd k" and "rnd k * real (i + 1) < 2 ^ 53"
  shows "real j \<le> rnd k * real (i + 1)
          \<Longrightarrow> rnd k * real (i + 1) + rnd k * real (i + 1) / 2 ^ 53 < real j + 1
          \<Longrightarrow> pick rnd k i = j"
    and "pick rnd k i = j
          \<Longrightarrow> real j \<le> rnd k * real (i + 1) + rnd k * real (i + 1) / 2 ^ 53
              \<and> rnd k * real (i + 1) < real j + 1"
proof -
  define y where "y = rnd k * real (i + 1)"
  have y0: "0 \<le> y"
    using assms(1) by (simp add: y_def)
  have err: "\<bar>fl y - y\<bar> \<le> y / 2 ^ 53"
    using y0 by (rule fl_err0)
  have f0: "0 \<le> fl y"
    using y0 by (rule fl_nonneg)
  have pk: "pick rnd k i = nat \<lfloor>fl y\<rfloor>"
    by (simp add: pick_def y_def)
  {
    assume lo: "real j \<le> y" and hi: "y + y / 2 ^ 53 < real j + 1"
    from lo assms(2) have "real j \<le> fl y"
      unfolding y_def [symmetric] by (rule fl_ge_nat)
    moreover from err hi have "fl y < real j + 1"
      by linarith
    ultimately have "\<lfloor>fl y\<rfloor> = int j"
      by (simp add: floor_eq_iff)
    then have "pick rnd k i = j"
      by (simp add: pk)
  }
  then show "real j \<le> rnd k * real (i + 1)
          \<Longrightarrow> rnd k * real (i + 1) + rnd k * real (i + 1) / 2 ^ 53 < real j + 1
          \<Longrightarrow> pick rnd k i = j"
    unfolding y_def .
  {
    assume "pick rnd k i = j"
    with f0 have fj: "\<lfloor>fl y\<rfloor> = int j"
      unfolding pk by (metis int_nat_eq zero_le_floor)
    then have a: "real j \<le> fl y" and b: "fl y < real j + 1"
      by (simp_all add: floor_eq_iff)
    from a err have "real j \<le> y + y / 2 ^ 53"
      by linarith
    moreover have "y < real j + 1"
    proof (rule ccontr)
      assume "\<not> y < real j + 1"
      then have "real (j + 1) \<le> y" by simp
      from this assms(2) [folded y_def] have "real (j + 1) \<le> fl y"
        by (rule fl_ge_nat)
      with b show False by simp
    qed
    ultimately have "real j \<le> y + y / 2 ^ 53 \<and> y < real j + 1" ..
  }
  then show "pick rnd k i = j
          \<Longrightarrow> real j \<le> rnd k * real (i + 1) + rnd k * real (i + 1) / 2 ^ 53
              \<and> rnd k * real (i + 1) < real j + 1"
    unfolding y_def .
qed

lemma card_nat_interval:
  "{m::nat. a \<le> real m \<and> real m < c} = {nat \<lceil>a\<rceil>..<nat \<lceil>c\<rceil>}"
proof (intro set_eqI iffI)
  fix m :: nat
  assume "m \<in> {m. a \<le> real m \<and> real m < c}"
  then have "a \<le> real m" "real m < c" by simp_all
  then have "\<lceil>a\<rceil> \<le> int m" "int m < \<lceil>c\<rceil>"
    by (simp_all add: ceiling_le_iff less_ceiling_iff)
  then show "m \<in> {nat \<lceil>a\<rceil>..<nat \<lceil>c\<rceil>}"
    by simp linarith
next
  fix m :: nat
  assume "m \<in> {nat \<lceil>a\<rceil>..<nat \<lceil>c\<rceil>}"
  then have "nat \<lceil>a\<rceil> \<le> m" "m < nat \<lceil>c\<rceil>" by simp_all
  then have "\<lceil>a\<rceil> \<le> int m" "int m < \<lceil>c\<rceil>"
    by linarith+
  then have "a \<le> real m" "real m < c"
    by (simp_all add: ceiling_le_iff less_ceiling_iff)
  then show "m \<in> {m. a \<le> real m \<and> real m < c}" by simp
qed

lemma card_nat_interval_bounds:
  shows "0 \<le> a \<Longrightarrow> c - a - 1 \<le> real (card {m::nat. a \<le> real m \<and> real m < c})"
    and "a \<le> c \<Longrightarrow> real (card {m::nat. a \<le> real m \<and> real m < c}) \<le> c - a + 1"
proof -
  have cd: "card {m::nat. a \<le> real m \<and> real m < c} = nat \<lceil>c\<rceil> - nat \<lceil>a\<rceil>"
    by (simp add: card_nat_interval)
  note ca = ceiling_correct [of a] and cc = ceiling_correct [of c]
  {
    assume a0: "0 \<le> a"
    then have "0 \<le> \<lceil>a\<rceil>" by (simp add: le_ceiling_iff) 
    then have "int (nat \<lceil>c\<rceil> - nat \<lceil>a\<rceil>) \<ge> \<lceil>c\<rceil> - \<lceil>a\<rceil>"
      by linarith
    then have "real_of_int (\<lceil>c\<rceil> - \<lceil>a\<rceil>) \<le> real (nat \<lceil>c\<rceil> - nat \<lceil>a\<rceil>)"
      by (metis of_int_le_iff of_int_of_nat_eq)
    with ca cc have "c - a - 1 \<le> real (nat \<lceil>c\<rceil> - nat \<lceil>a\<rceil>)"
      unfolding of_int_diff by linarith
  }
  then show "0 \<le> a \<Longrightarrow> c - a - 1 \<le> real (card {m::nat. a \<le> real m \<and> real m < c})"
    unfolding cd .
  {
    assume ac: "a \<le> c"
    then have le: "\<lceil>a\<rceil> \<le> \<lceil>c\<rceil>" by (rule ceiling_mono)
    have "int (nat \<lceil>c\<rceil> - nat \<lceil>a\<rceil>) \<le> \<lceil>c\<rceil> - \<lceil>a\<rceil>"
    proof (cases "0 \<le> \<lceil>a\<rceil>")
      case True
      from le have "nat \<lceil>a\<rceil> \<le> nat \<lceil>c\<rceil>" by (rule nat_mono)
      then have "int (nat \<lceil>c\<rceil> - nat \<lceil>a\<rceil>) = int (nat \<lceil>c\<rceil>) - int (nat \<lceil>a\<rceil>)"
        by (rule of_nat_diff)
      with True le show ?thesis by linarith
    next
      case False
      then have "nat \<lceil>a\<rceil> = 0" by simp
      with False le show ?thesis by linarith
    qed
    then have "real (nat \<lceil>c\<rceil> - nat \<lceil>a\<rceil>) \<le> real_of_int (\<lceil>c\<rceil> - \<lceil>a\<rceil>)"
      by (metis of_int_le_iff of_int_of_nat_eq)
    with ca cc have "real (nat \<lceil>c\<rceil> - nat \<lceil>a\<rceil>) \<le> c - a + 1"
      unfolding of_int_diff by linarith
  }
  then show "a \<le> c \<Longrightarrow> real (card {m::nat. a \<le> real m \<and> real m < c}) \<le> c - a + 1"
    unfolding cd .
qed

lemma index_count_nats:
  "index_count b i j = card {m. m < 2 ^ b \<and> pick (\<lambda>k. real m / 2 ^ b) 0 i = j}"
proof -
  have inj: "inj_on (\<lambda>m. real m / 2 ^ b) {m. m < 2 ^ b \<and> pick (\<lambda>k. real m / 2 ^ b) 0 i = j}"
    by (rule inj_onI) simp
  have "{x \<in> doubles b. pick (\<lambda>k. x) 0 i = j}
          = (\<lambda>m. real m / 2 ^ b) ` {m. m < 2 ^ b \<and> pick (\<lambda>k. real m / 2 ^ b) 0 i = j}"
    unfolding doubles_def by auto
  then show ?thesis
    unfolding index_count_def by (simp only: card_image [OF inj])
qed

lemma index_count_near:
  assumes "j \<le> i" and "i < 2 ^ 53"
  shows "2 ^ 53 / real (i + 1) - 2 \<le> real (index_count 53 i j)"
    and "real (index_count 53 i j) \<le> 2 ^ 53 / real (i + 1) + 2"
proof -
  define M :: real where "M = 2 ^ 53"
  define N where "N = real (i + 1)"
  define t where "t = M / N"
  define A where "A = {m::nat. m < 2 ^ 53 \<and> pick (\<lambda>k. real m / 2 ^ 53) 0 i = j}"
  define L where "L = {m::nat. real j * t \<le> real m \<and> real m < (real j + 1) * t - 1}"
  define U where "U = {m::nat. real j * t - 1 \<le> real m \<and> real m < (real j + 1) * t}"
  have M0: "0 < M" by (simp add: M_def)
  have N1: "1 \<le> N" by (simp add: N_def)
  have "i + 1 \<le> 2 ^ 53" using assms(2) by simp
  then have "real (i + 1) \<le> real (2 ^ 53)"
    by (simp only: of_nat_le_iff)
  then have NM: "N \<le> M"
    by (simp add: N_def M_def)
  have jN: "real j + 1 \<le> N"
    using assms(1) by (simp add: N_def)
  have t0: "0 < t"
    using M0 N1 by (simp add: t_def)
  have tN: "N * t = M"
    using N1 by (simp add: t_def)
  have Mt: "M / t = N"
    using M0 N1 by (simp add: t_def)
  have prod: "real m / 2 ^ 53 * real (i + 1) = real m / t" for m
    using M0 N1 by (simp add: t_def M_def N_def)
  have small: "real m / t / 2 ^ 53 \<le> 1 / t" if "real m \<le> M" for m
  proof -
    have "real m / t \<le> M / t"
      using that t0 by (intro divide_right_mono) simp_all
    then have "real m / t / M \<le> N / M"
      unfolding Mt using M0 by (intro divide_right_mono) simp_all
    also have "N / M = 1 / t"
      using M0 N1 by (simp add: t_def)
    finally show ?thesis by (simp add: M_def)
  qed
  have lo: "real j * t \<le> real m \<longleftrightarrow> real j \<le> real m / t" for m
    using t0 by (simp add: pos_le_divide_eq)
  have hi: "real m < (real j + 1) * t \<longleftrightarrow> real m / t < real j + 1" for m
    using t0 by (simp add: pos_divide_less_eq)
  have lo1: "real j * t - 1 \<le> real m \<longleftrightarrow> real j \<le> real m / t + 1 / t" for m
  proof -
    have "real j * t - 1 \<le> real m \<longleftrightarrow> real j * t \<le> real m + 1" by linarith
    also have "\<dots> \<longleftrightarrow> real j \<le> (real m + 1) / t"
      using t0 by (simp add: pos_le_divide_eq)
    finally show ?thesis by (simp add: add_divide_distrib)
  qed
  have hi1: "real m < (real j + 1) * t - 1 \<longleftrightarrow> real m / t + 1 / t < real j + 1" for m
  proof -
    have "real m < (real j + 1) * t - 1 \<longleftrightarrow> real m + 1 < (real j + 1) * t" by linarith
    also have "\<dots> \<longleftrightarrow> (real m + 1) / t < real j + 1"
      using t0 by (simp add: pos_divide_less_eq)
    finally show ?thesis by (simp add: add_divide_distrib)
  qed
  have below: "real m < M" if "real m / t < real j + 1" for m
  proof -
    from that jN have "real m / t < N" by linarith
    then have "real m < N * t"
      using t0 by (simp add: pos_divide_less_eq)
    then show ?thesis by (simp only: tN)
  qed
  have finA: "finite A"
    unfolding A_def by simp
  have LA: "L \<subseteq> A"
  proof
    fix m assume "m \<in> L"
    then have a: "real j \<le> real m / t" and b: "real m / t + 1 / t < real j + 1"
      unfolding L_def by (simp_all add: lo hi1)
    have "0 < 1 / t" using t0 by simp
    with b have c: "real m / t < real j + 1" by linarith
    from below [OF c] have mM: "real m < M" .
    then have "real m < real (2 ^ 53)" by (simp add: M_def)
    then have m53: "m < 2 ^ 53" by (simp only: of_nat_less_iff)
    from small [of m] mM have s: "real m / t / 2 ^ 53 \<le> 1 / t" by simp
    have "pick (\<lambda>k. real m / 2 ^ 53) 0 i = j"
    proof (rule pick_from_product(1))
      show "0 \<le> real m / 2 ^ 53" by simp
      show "real m / 2 ^ 53 * real (i + 1) < 2 ^ 53"
        unfolding prod using c jN NM by (simp add: M_def)
      show "real j \<le> real m / 2 ^ 53 * real (i + 1)"
        unfolding prod by (rule a)
      show "real m / 2 ^ 53 * real (i + 1) + real m / 2 ^ 53 * real (i + 1) / 2 ^ 53 < real j + 1"
        unfolding prod using b s by linarith
    qed
    with m53 show "m \<in> A" by (simp add: A_def)
  qed
  have AU: "A \<subseteq> U"
  proof
    fix m assume "m \<in> A"
    then have m53: "m < 2 ^ 53" and p: "pick (\<lambda>k. real m / 2 ^ 53) 0 i = j"
      by (simp_all add: A_def)
    from m53 have "real m < real (2 ^ 53)" by (simp only: of_nat_less_iff)
    then have mM: "real m < M" by (simp add: M_def)
    then have "real m / t < M / t"
      using t0 by (intro divide_strict_right_mono) simp_all
    then have yN: "real m / t < N" by (simp only: Mt)
    have "real j \<le> real m / 2 ^ 53 * real (i + 1) + real m / 2 ^ 53 * real (i + 1) / 2 ^ 53
              \<and> real m / 2 ^ 53 * real (i + 1) < real j + 1"
    proof (rule pick_from_product(2) [OF _ _ p])
      show "0 \<le> real m / 2 ^ 53" by simp
      show "real m / 2 ^ 53 * real (i + 1) < 2 ^ 53"
        unfolding prod using yN NM by (simp add: M_def)
    qed
    then have a: "real j \<le> real m / t + real m / t / 2 ^ 53" and b: "real m / t < real j + 1"
      unfolding prod by simp_all
    from small [of m] mM have "real m / t / 2 ^ 53 \<le> 1 / t" by simp
    with a have "real j \<le> real m / t + 1 / t" by linarith
    with b show "m \<in> U"
      unfolding U_def by (simp add: lo1 hi)
  qed
  have finU: "finite U"
    unfolding U_def card_nat_interval by simp
  have "t - 2 \<le> (real j + 1) * t - 1 - real j * t - 1"
    by (simp add: algebra_simps)
  also have "\<dots> \<le> real (card L)"
    unfolding L_def using t0 by (intro card_nat_interval_bounds(1)) simp
  also have "\<dots> \<le> real (card A)"
    using card_mono [OF finA LA] by simp
  finally have low: "t - 2 \<le> real (card A)" .
  have "real (card A) \<le> real (card U)"
    using card_mono [OF finU AU] by simp
  also have "\<dots> \<le> (real j + 1) * t - (real j * t - 1) + 1"
    unfolding U_def
  proof (rule card_nat_interval_bounds(2))
    have "real j * t \<le> (real j + 1) * t"
      using t0 by (intro mult_right_mono) simp_all
    then show "real j * t - 1 \<le> (real j + 1) * t" by linarith
  qed
  also have "\<dots> = t + 2"
    by (simp add: algebra_simps)
  finally have high: "real (card A) \<le> t + 2" .
  have "index_count 53 i j = card A"
    unfolding A_def by (rule index_count_nats)
  with low high show "2 ^ 53 / real (i + 1) - 2 \<le> real (index_count 53 i j)"
    and "real (index_count 53 i j) \<le> 2 ^ 53 / real (i + 1) + 2"
    by (simp_all add: t_def M_def N_def)
qed

text \<open>
  C9, as the code has it. \<^verbatim>\<open>shuffleInPlace\<close> runs from the last index down to index 1
  and at each index \<open>i\<close> exchanges the entry with the one at the index
  \<open>\<lfloor>fl (r * (i + 1))\<rfloor>\<close>, where \<open>r\<close> is the next random number and the product is rounded to
  a double; the index is in \<open>0..i\<close>. Of the \<open>2 ^ 53\<close> doubles \<open>m / 2 ^ 53\<close> each index
  of \<open>0..i\<close> is picked under \<open>2 ^ 53 / (i + 1)\<close> of them, give or take 2: with a uniform
  source the probability of each index is within \<open>2 ^ -52\<close> of \<open>1 / (i + 1)\<close>. The output
  is a permutation of the input. There are \<open>n!\<close> lists of choices, and for an input
  without repetitions each permutation of it is the output under exactly one of them, and
  nothing else is an output.
\<close>

theorem shuffleInPlace_uniform_permutation:
  "shuffleInPlace rnd k arr = shuffle_loop rnd k (length arr - 1) arr
   \<and> shuffle_loop rnd k 0 arr = (arr, k)
   \<and> shuffle_loop rnd k (Suc i) arr
       = shuffle_loop rnd (Suc k) i (swap arr (Suc i) (pick rnd k (Suc i)))
   \<and> (\<forall>a b. a < length arr \<and> b < length arr \<longrightarrow> swap arr a b = arr[a := arr ! b, b := arr ! a])
   \<and> pick rnd k i = nat \<lfloor>fl (rnd k * real (i + 1))\<rfloor>
   \<and> (unit_source rnd \<longrightarrow> pick rnd k i \<le> i)
   \<and> (j \<le> i \<and> i < 2 ^ 53 \<longrightarrow>
        2 ^ 53 / real (i + 1) - 2 \<le> real (index_count 53 i j)
        \<and> real (index_count 53 i j) \<le> 2 ^ 53 / real (i + 1) + 2)
   \<and> (\<Sum>j \<in> {..i}. index_count 53 i j) = 2 ^ 53
   \<and> (unit_source rnd \<longrightarrow> mset (fst (shuffleInPlace rnd k arr)) = mset arr)
   \<and> fst (shuffleInPlace rnd k arr)
       = shuffle_by (picks rnd k (length arr - 1)) (length arr - 1) arr
   \<and> (unit_source rnd \<longrightarrow> picks rnd k (length arr - 1) \<in> set (choice_vectors (length arr - 1)))
   \<and> length (choice_vectors (length arr - 1)) = fact (length arr)
   \<and> (distinct arr \<longrightarrow>
        hits (length arr - 1) arr ys = (if mset ys = mset arr then 1 else 0))"
proof -
  have loop: "shuffle_loop rnd k (Suc i) arr
       = shuffle_loop rnd (Suc k) i (swap arr (Suc i) (pick rnd k (Suc i)))"
    by (simp add: Let_def)
  have sw: "\<forall>a b. a < length arr \<and> b < length arr \<longrightarrow> swap arr a b = arr[a := arr ! b, b := arr ! a]"
    by (simp add: swap_in_range)
  have pd: "pick rnd k i = nat \<lfloor>fl (rnd k * real (i + 1))\<rfloor>"
    by (rule pick_def)
  have pk: "unit_source rnd \<longrightarrow> pick rnd k i \<le> i"
  proof
    assume "unit_source rnd"
    then have "0 \<le> rnd k" "rnd k \<le> 1 - 1 / 2 ^ 53"
      by (simp_all add: unit_source_def)
    then show "pick rnd k i \<le> i"
      by (rule pick_le)
  qed
  have near: "j \<le> i \<and> i < 2 ^ 53 \<longrightarrow>
        2 ^ 53 / real (i + 1) - 2 \<le> real (index_count 53 i j)
        \<and> real (index_count 53 i j) \<le> 2 ^ 53 / real (i + 1) + 2"
    using index_count_near [of j i] by blast
  have total: "(\<Sum>j \<in> {..i}. index_count 53 i j) = 2 ^ 53"
    by (rule index_count_total) simp
  have by_picks: "fst (shuffleInPlace rnd k arr)
       = shuffle_by (picks rnd k (length arr - 1)) (length arr - 1) arr"
    unfolding shuffleInPlace_def by (rule shuffle_loop_by)
  have start: "shuffleInPlace rnd k arr = shuffle_loop rnd k (length arr - 1) arr"
    by (rule shuffleInPlace_def)
  have stop: "shuffle_loop rnd k 0 arr = (arr, k)"
    by simp
  have perm: "unit_source rnd \<longrightarrow> mset (fst (shuffleInPlace rnd k arr)) = mset arr"
    using shuffleInPlace_perm [of rnd k arr] by blast
  have valid: "unit_source rnd \<longrightarrow> picks rnd k (length arr - 1) \<in> set (choice_vectors (length arr - 1))"
    using picks_valid [of rnd k "length arr - 1"] by blast
  have uni: "distinct arr \<longrightarrow> hits (length arr - 1) arr ys = (if mset ys = mset arr then 1 else 0)"
    using hits_shuffle [of arr ys] by blast
  show ?thesis
    using start stop loop sw pd pk near total perm by_picks valid
      length_choice_vectors_shuffle [of arr] uni
    by (intro conjI) assumption+
qed

theorem shuffleInPlace_uniform_permutation_witness:
  "unit_source (\<lambda>k. 1 / 2)
   \<and> distinct [Str ''As'', Str ''Ks'', Str ''Qs'']
   \<and> (0::nat) \<le> 2 \<and> (2::nat) < 2 ^ 53
   \<and> 2 ^ 53 / real (2 + 1) - 2 \<le> real (index_count 53 2 0)
   \<and> real (index_count 53 2 0) \<le> 2 ^ 53 / real (2 + 1) + 2
   \<and> mset (fst (shuffleInPlace (\<lambda>k. 1 / 2) 0 [Str ''As'', Str ''Ks'', Str ''Qs'']))
       = mset [Str ''As'', Str ''Ks'', Str ''Qs'']
   \<and> pick (\<lambda>k. 1 / 2) 0 2 \<le> 2
   \<and> length (choice_vectors 2) = 6
   \<and> hits 2 [Str ''As'', Str ''Ks'', Str ''Qs''] [Str ''Qs'', Str ''As'', Str ''Ks''] = 1
   \<and> hits 2 [Str ''As'', Str ''Ks'', Str ''Qs''] [Str ''Qs'', Str ''Qs'', Str ''Ks''] = 0"
proof -
  let ?arr = "[Str ''As'', Str ''Ks'', Str ''Qs'']"
  have u: "unit_source (\<lambda>k. 1 / 2)"
    by (simp add: unit_source_def)
  have d: "distinct ?arr"
    by simp
  have r: "(0::nat) \<le> 2 \<and> (2::nat) < 2 ^ 53"
    by simp
  have n: "length ?arr - 1 = 2" and f: "fact (length ?arr) = (6::nat)"
    by (simp_all add: fact_numeral)
  have m1: "mset [Str ''Qs'', Str ''As'', Str ''Ks''] = mset ?arr"
    by simp
  have m2: "mset [Str ''Qs'', Str ''Qs'', Str ''Ks''] \<noteq> mset ?arr"
  proof
    assume "mset [Str ''Qs'', Str ''Qs'', Str ''Ks''] = mset ?arr"
    then have "set [Str ''Qs'', Str ''Qs'', Str ''Ks''] = set ?arr"
      by (rule mset_eq_setD)
    moreover have "Str ''As'' \<in> set ?arr" by simp
    ultimately have "Str ''As'' \<in> set [Str ''Qs'', Str ''Qs'', Str ''Ks'']"
      by (simp only:)
    then show False by simp
  qed
  note a = shuffleInPlace_uniform_permutation
             [of "\<lambda>k. 1 / 2" 0 ?arr 2 0 "[Str ''Qs'', Str ''As'', Str ''Ks'']", unfolded n f]
  note b = shuffleInPlace_uniform_permutation
             [of "\<lambda>k. 1 / 2" 0 ?arr 2 0 "[Str ''Qs'', Str ''Qs'', Str ''Ks'']", unfolded n f]
  from a r have "2 ^ 53 / real (2 + 1) - 2 \<le> real (index_count 53 2 0)
      \<and> real (index_count 53 2 0) \<le> 2 ^ 53 / real (2 + 1) + 2"
    by blast
  moreover from a u have "mset (fst (shuffleInPlace (\<lambda>k. 1 / 2) 0 ?arr)) = mset ?arr"
    by blast
  moreover from a u have "pick (\<lambda>k. 1 / 2) 0 2 \<le> 2"
    by blast
  moreover from a have "length (choice_vectors 2) = 6"
    by blast
  moreover from a d m1 have "hits 2 ?arr [Str ''Qs'', Str ''As'', Str ''Ks''] = 1"
    by (simp only: if_True simp_thms)
  moreover from b d m2 have "hits 2 ?arr [Str ''Qs'', Str ''Qs'', Str ''Ks''] = 0"
    by (simp only: if_False simp_thms)
  ultimately show ?thesis
    using u d r by blast
qed

text \<open>
  The claim as it is written fails where it says that an index is chosen uniformly and
  that every permutation is equally likely. The double \<open>2573485501354569 / 2 ^ 52\<close>
  lies in \<open>[3 / 7, 4 / 7)\<close>, the seventh of the unit interval that belongs to index 3, and
  at \<open>i = 6\<close> the code picks index 4, because the product is rounded up to 4 before the
  floor is taken. For a uniform source of the \<open>2 ^ 53\<close> doubles \<open>m / 2 ^ 53\<close>, the three
  indices at \<open>i = 2\<close> are not picked equally often, and the six orders of three cards do
  not come out equally often: 3 does not divide a power of 2.
\<close>

theorem shuffleInPlace_not_uniform:
  "2573485501354569 / 2 ^ 52 \<in> doubles 52
   \<and> pick (\<lambda>k. 2573485501354569 / 2 ^ 52) 0 6 = 4
   \<and> \<lfloor>2573485501354569 / 2 ^ 52 * (7::real)\<rfloor> = 3
   \<and> \<not> (index_count 53 2 0 = index_count 53 2 1 \<and> index_count 53 2 1 = index_count 53 2 2)
   \<and> \<not> (order_count 53 [Str ''As'', Str ''Ks'', Str ''Qs''] [Str ''As'', Str ''Ks'', Str ''Qs'']
          = order_count 53 [Str ''As'', Str ''Ks'', Str ''Qs''] [Str ''As'', Str ''Qs'', Str ''Ks'']
        \<and> order_count 53 [Str ''As'', Str ''Ks'', Str ''Qs''] [Str ''As'', Str ''Ks'', Str ''Qs'']
          = order_count 53 [Str ''As'', Str ''Ks'', Str ''Qs''] [Str ''Ks'', Str ''As'', Str ''Qs'']
        \<and> order_count 53 [Str ''As'', Str ''Ks'', Str ''Qs''] [Str ''As'', Str ''Ks'', Str ''Qs'']
          = order_count 53 [Str ''As'', Str ''Ks'', Str ''Qs''] [Str ''Ks'', Str ''Qs'', Str ''As'']
        \<and> order_count 53 [Str ''As'', Str ''Ks'', Str ''Qs''] [Str ''As'', Str ''Ks'', Str ''Qs'']
          = order_count 53 [Str ''As'', Str ''Ks'', Str ''Qs''] [Str ''Qs'', Str ''As'', Str ''Ks'']
        \<and> order_count 53 [Str ''As'', Str ''Ks'', Str ''Qs''] [Str ''As'', Str ''Ks'', Str ''Qs'']
          = order_count 53 [Str ''As'', Str ''Ks'', Str ''Qs''] [Str ''Qs'', Str ''Ks'', Str ''As''])"
proof -
  let ?A = "[Str ''As'', Str ''Ks'', Str ''Qs'']"
  have a: "2573485501354569 / 2 ^ 52 \<in> doubles 52"
    unfolding doubles_def by (rule image_eqI [of _ _ 2573485501354569]) simp_all
  have c: "\<lfloor>2573485501354569 / 2 ^ 52 * (7::real)\<rfloor> = 3"
    by (simp add: floor_eq_iff)
  have d: "\<not> (index_count 53 2 0 = index_count 53 2 1 \<and> index_count 53 2 1 = index_count 53 2 2)"
  proof
    assume e: "index_count 53 2 0 = index_count 53 2 1 \<and> index_count 53 2 1 = index_count 53 2 2"
    have "{..2::nat} = {0, 1, 2}" by auto
    with index_count_total [of 53 2]
    have "index_count 53 2 0 + index_count 53 2 1 + index_count 53 2 2 = 2 ^ 53"
      by simp
    with e have "(2::nat) ^ 53 = 3 * index_count 53 2 0"
      by simp
    then have "(3::nat) dvd 2 ^ 53"
      by (rule dvdI)
    with not_three_dvd show False by blast
  qed
  have f: "\<not> (order_count 53 ?A [Str ''As'', Str ''Ks'', Str ''Qs''] = order_count 53 ?A [Str ''As'', Str ''Qs'', Str ''Ks'']
        \<and> order_count 53 ?A [Str ''As'', Str ''Ks'', Str ''Qs''] = order_count 53 ?A [Str ''Ks'', Str ''As'', Str ''Qs'']
        \<and> order_count 53 ?A [Str ''As'', Str ''Ks'', Str ''Qs''] = order_count 53 ?A [Str ''Ks'', Str ''Qs'', Str ''As'']
        \<and> order_count 53 ?A [Str ''As'', Str ''Ks'', Str ''Qs''] = order_count 53 ?A [Str ''Qs'', Str ''As'', Str ''Ks'']
        \<and> order_count 53 ?A [Str ''As'', Str ''Ks'', Str ''Qs''] = order_count 53 ?A [Str ''Qs'', Str ''Ks'', Str ''As''])"
  proof
    assume e: "order_count 53 ?A [Str ''As'', Str ''Ks'', Str ''Qs''] = order_count 53 ?A [Str ''As'', Str ''Qs'', Str ''Ks'']
        \<and> order_count 53 ?A [Str ''As'', Str ''Ks'', Str ''Qs''] = order_count 53 ?A [Str ''Ks'', Str ''As'', Str ''Qs'']
        \<and> order_count 53 ?A [Str ''As'', Str ''Ks'', Str ''Qs''] = order_count 53 ?A [Str ''Ks'', Str ''Qs'', Str ''As'']
        \<and> order_count 53 ?A [Str ''As'', Str ''Ks'', Str ''Qs''] = order_count 53 ?A [Str ''Qs'', Str ''As'', Str ''Ks'']
        \<and> order_count 53 ?A [Str ''As'', Str ''Ks'', Str ''Qs''] = order_count 53 ?A [Str ''Qs'', Str ''Ks'', Str ''As'']"
    define n where "n = order_count 53 ?A [Str ''As'', Str ''Ks'', Str ''Qs'']"
    define T :: nat where "T = 2 ^ 53 * 2 ^ 53"
    from order_count_total [of 53 "Str ''As''" "Str ''Ks''" "Str ''Qs''"]
    have "order_count 53 ?A [Str ''As'', Str ''Ks'', Str ''Qs'']
          + order_count 53 ?A [Str ''As'', Str ''Qs'', Str ''Ks'']
          + order_count 53 ?A [Str ''Ks'', Str ''As'', Str ''Qs'']
          + order_count 53 ?A [Str ''Ks'', Str ''Qs'', Str ''As'']
          + order_count 53 ?A [Str ''Qs'', Str ''As'', Str ''Ks'']
          + order_count 53 ?A [Str ''Qs'', Str ''Ks'', Str ''As''] = T"
      unfolding T_def by simp
    with e have "T = 3 * (2 * n)"
      unfolding n_def by linarith
    then have "(2::nat) ^ (53 + 53) = 3 * (2 * n)"
      unfolding T_def by (simp only: power_add)
    then have "(3::nat) dvd 2 ^ (53 + 53)"
      by (rule dvdI)
    with not_three_dvd show False by blast
  qed
  from a pick_off c d f show ?thesis
    by (intro conjI)
qed

section \<open>The inputs are not written\<close>

lemma write_index_simps:
  "cells (write_index r i v s) = (cells s)(r := js_set (cells s r) i v)"
  "next_ref (write_index r i v s) = next_ref s"
  by (simp_all add: write_index_def)

lemma alloc_simps:
  "fst (alloc xs s) = next_ref s"
  "cells (snd (alloc xs s)) = (cells s)(next_ref s := xs)"
  "next_ref (snd (alloc xs s)) = Suc (next_ref s)"
  by (simp_all add: alloc_def)

lemma shuffle_loop_st_eq:
  "cells (fst (shuffle_loop_st rnd k i r s)) = (cells s)(r := fst (shuffle_loop rnd k i (cells s r)))
   \<and> next_ref (fst (shuffle_loop_st rnd k i r s)) = next_ref s
   \<and> snd (shuffle_loop_st rnd k i r s) = snd (shuffle_loop rnd k i (cells s r))"
proof (induction i arbitrary: k s)
  case 0
  show ?case by simp
next
  case (Suc i)
  let ?j = "pick rnd k (Suc i)"
  let ?s2 = "write_index r ?j (js_get (cells s r) (Suc i))
               (write_index r (Suc i) (js_get (cells s r) ?j) s)"
  have c: "cells ?s2 = (cells s)(r := swap (cells s r) (Suc i) ?j)" and n: "next_ref ?s2 = next_ref s"
    by (simp_all add: write_index_simps swap_def Let_def)
  have st: "shuffle_loop_st rnd k (Suc i) r s = shuffle_loop_st rnd (Suc k) i r ?s2"
    by (simp add: Let_def)
  from Suc.IH [of "Suc k" ?s2] show ?case
    unfolding st c n by (auto simp: fun_eq_iff)
qed

lemma fill_loop_st_eq:
  assumes "deck \<noteq> sb"
  shows "cells (snd (fill_loop_st deck i sb idx s))
           = (cells s)(sb := fst (fill_loop (cells s deck) i (cells s sb) idx))
         \<and> next_ref (snd (fill_loop_st deck i sb idx s)) = next_ref s
         \<and> fst (fill_loop_st deck i sb idx s) = snd (fill_loop (cells s deck) i (cells s sb) idx)"
  using assms
proof (induction deck i sb idx s rule: fill_loop_st.induct)
  case (1 deck i sb idx s)
  show ?case
  proof (cases "i < 5")
    case False
    then show ?thesis
      by (subst (1 2 3) fill_loop_st.simps, subst (1 2) fill_loop.simps) simp
  next
    case lt: True
    show ?thesis
    proof (cases "truthy (js_get (cells s sb) i)")
      case True
      have st: "fill_loop_st deck i sb idx s = fill_loop_st deck (i + 1) sb idx s"
        using lt True by (subst fill_loop_st.simps) simp
      have pu: "fill_loop (cells s deck) i (cells s sb) idx
                  = fill_loop (cells s deck) (i + 1) (cells s sb) idx"
        using lt True by (subst fill_loop.simps) simp
      from "1.IH"(2) [OF lt _ "1.prems"] True show ?thesis
        unfolding st pu by simp
    next
      case False
      let ?s1 = "write_index sb i (js_get (cells s deck) idx) s"
      have c: "cells ?s1 deck = cells s deck"
        "cells ?s1 sb = js_set (cells s sb) i (js_get (cells s deck) idx)"
        "next_ref ?s1 = next_ref s"
        "(cells ?s1)(sb := x) = (cells s)(sb := x)" for x
        using "1.prems" by (simp_all add: write_index_simps)
      have st: "fill_loop_st deck i sb idx s = fill_loop_st deck (i + 1) sb (idx + 1) ?s1"
        using lt False by (subst fill_loop_st.simps) simp
      have pu: "fill_loop (cells s deck) i (cells s sb) idx
                  = fill_loop (cells s deck) (i + 1)
                      (js_set (cells s sb) i (js_get (cells s deck) idx)) (idx + 1)"
        using lt False by (subst fill_loop.simps) simp
      from "1.IH"(1) [OF lt False "1.prems"] show ?thesis
        unfolding st pu c .
    qed
  qed
qed

lemma trial_st_spec:
  fixes s :: store
  assumes h: "hero < next_ref s" and b: "board < next_ref s"
  shows "fst (trial_st solve players hero board known rnd k s)
           = fst (trial solve players (cells s hero) (cells s board) known rnd k)
         \<and> fst (snd (trial_st solve players hero board known rnd k s))
           = snd (trial solve players (cells s hero) (cells s board) known rnd k)
         \<and> (\<forall>r < next_ref s. cells (snd (snd (trial_st solve players hero board known rnd k s))) r = cells s r)
         \<and> next_ref (snd (snd (trial_st solve players hero board known rnd k s))) = next_ref s + 3"
proof -
  let ?n = "next_ref s"
  define s1 where "s1 = snd (makeDeck_st known s)"
  define s2 where "s2 = snd (slice_st ?n s1)"
  define s3 where "s3 = fst (shuffleInPlace_st rnd k (Suc ?n) s2)"
  define k' where "k' = snd (shuffleInPlace_st rnd k (Suc ?n) s2)"
  define s4 where "s4 = snd (slice_st board s3)"
  define s5 where "s5 = snd (fill_loop_st (Suc ?n) 0 (Suc (Suc ?n)) 0 s4)"
  define idx where "idx = fst (fill_loop_st (Suc ?n) 0 (Suc (Suc ?n)) 0 s4)"
  let ?D = "fst (shuffleInPlace rnd k (makeDeck known))"
  have m: "makeDeck_st known s = (?n, s1)"
    by (simp add: s1_def makeDeck_st_def alloc_def)
  have c1: "cells s1 = (cells s)(?n := makeDeck known)" and n1: "next_ref s1 = Suc ?n"
    by (simp_all add: s1_def makeDeck_st_def makeDeck_def alloc_simps)
  have sl: "slice_st ?n s1 = (Suc ?n, s2)"
    by (simp add: s2_def slice_st_def alloc_def n1)
  have c2: "cells s2 = (cells s1)(Suc ?n := makeDeck known)" and n2: "next_ref s2 = Suc (Suc ?n)"
    by (simp_all add: s2_def slice_st_def alloc_simps c1 n1)
  have sh: "shuffleInPlace_st rnd k (Suc ?n) s2 = (s3, k')"
    by (simp add: s3_def k'_def)
  have c3: "cells s3 = (cells s2)(Suc ?n := ?D)" and n3: "next_ref s3 = Suc (Suc ?n)"
    and k': "k' = snd (shuffleInPlace rnd k (makeDeck known))"
    using shuffle_loop_st_eq [of rnd k "length (makeDeck known) - 1" "Suc ?n" s2]
    by (simp_all add: s3_def k'_def shuffleInPlace_st_def shuffleInPlace_def c2 n2)
  have b3: "cells s3 board = cells s board" and h3: "cells s3 hero = cells s hero"
    using h b by (simp_all add: c3 c2 c1)
  have sl2: "slice_st board s3 = (Suc (Suc ?n), s4)"
    by (simp add: s4_def slice_st_def alloc_def n3)
  have c4: "cells s4 = (cells s3)(Suc (Suc ?n) := cells s board)" and n4: "next_ref s4 = Suc (Suc (Suc ?n))"
    by (simp_all add: s4_def slice_st_def alloc_simps n3 b3)
  have d4: "cells s4 (Suc ?n) = ?D" and sb4: "cells s4 (Suc (Suc ?n)) = cells s board"
    by (simp_all add: c4 c3)
  have fil: "fill_loop_st (Suc ?n) 0 (Suc (Suc ?n)) 0 s4 = (idx, s5)"
    by (simp add: s5_def idx_def)
  have ne: "Suc ?n \<noteq> Suc (Suc ?n)" by simp
  have c5: "cells s5 = (cells s4)(Suc (Suc ?n) := fst (fill_loop ?D 0 (cells s board) 0))"
    and n5: "next_ref s5 = Suc (Suc (Suc ?n))"
    and idx: "idx = snd (fill_loop ?D 0 (cells s board) 0)"
    using fill_loop_st_eq [OF ne, of 0 0 s4]
    by (simp_all add: s5_def idx_def d4 sb4 n4)
  have d5: "cells s5 (Suc ?n) = ?D"
    and sb5: "cells s5 (Suc (Suc ?n)) = fst (fill_loop ?D 0 (cells s board) 0)"
    and h5: "cells s5 hero = cells s hero"
    using h by (simp_all add: c5 c4 c3 c2 c1)
  have frame: "\<forall>r < ?n. cells s5 r = cells s r"
    by (simp add: c5 c4 c3 c2 c1)
  have tr: "trial_st solve players hero board known rnd k s =
          (case deal_loop ?D players 0 [] idx of
             (opponents, idx') \<Rightarrow>
               (classify (solve (cells s hero @ fst (fill_loop ?D 0 (cells s board) 0)))
                  (map (\<lambda>h. solve (h @ fst (fill_loop ?D 0 (cells s board) 0))) opponents), k', s5))"
    by (simp add: trial_st_def m sl sh sl2 fil Let_def d5 sb5 h5)
  have pu: "trial solve players (cells s hero) (cells s board) known rnd k =
          (case deal_loop ?D players 0 [] idx of
             (opponents, idx') \<Rightarrow>
               (classify (solve (cells s hero @ fst (fill_loop ?D 0 (cells s board) 0)))
                  (map (\<lambda>h. solve (h @ fst (fill_loop ?D 0 (cells s board) 0))) opponents), k'))"
    unfolding trial_def deal_def k' idx
    by (simp add: Let_def split_beta)
  show ?thesis
    unfolding tr pu using frame n5
    by (simp add: split_beta)
qed

lemma trials_loop_st_spec:
  fixes s :: store
  assumes "m = nat \<lceil>n\<rceil> - t"
    and "cells s hero = H" and "cells s board = B"
    and "hero < next_ref s" and "board < next_ref s"
  shows "fst (trials_loop_st (trial_st solve players hero board known rnd) n t acc k s)
           = fst (trials_loop (trial solve players H B known rnd) n t acc k)
         \<and> fst (snd (trials_loop_st (trial_st solve players hero board known rnd) n t acc k s))
           = snd (trials_loop (trial solve players H B known rnd) n t acc k)
         \<and> (\<forall>r < next_ref s.
               cells (snd (snd (trials_loop_st (trial_st solve players hero board known rnd) n t acc k s))) r
                 = cells s r)
         \<and> next_ref s
             \<le> next_ref (snd (snd (trials_loop_st (trial_st solve players hero board known rnd) n t acc k s)))"
  using assms
proof (induction m arbitrary: t acc k s)
  case 0
  then have "\<not> int t < \<lceil>n\<rceil>" by linarith
  then have "\<not> real t < n"
    by (simp add: less_ceiling_iff)
  then show ?case
    by (subst (1 2 3 4) trials_loop_st.simps, subst (1 2) trials_loop.simps) simp
next
  case (Suc m)
  let ?trs = "trial_st solve players hero board known rnd"
  let ?tr = "trial solve players H B known rnd"
  from Suc.prems(1) have "int t < \<lceil>n\<rceil>" and m: "m = nat \<lceil>n\<rceil> - (t + 1)"
    by linarith+
  then have lt: "real t < n"
    by (simp add: less_ceiling_iff)
  obtain out k' s' where ts: "?trs k s = (out, k', s')"
    by (metis prod.exhaust)
  from trial_st_spec [OF Suc.prems(4,5), of solve players known rnd k] ts Suc.prems(2,3)
  have tp: "?tr k = (out, k')"
    and fr: "\<forall>r < next_ref s. cells s' r = cells s r"
    and nx: "next_ref s' = next_ref s + 3"
    by (simp_all add: prod_eq_iff)
  have h': "cells s' hero = H" "cells s' board = B" "hero < next_ref s'" "board < next_ref s'"
    using fr nx Suc.prems(2-5) by simp_all
  have st: "trials_loop_st ?trs n t acc k s = trials_loop_st ?trs n (t + 1) (bump out acc) k' s'"
    using lt ts by (subst trials_loop_st.simps) simp
  have pu: "trials_loop ?tr n t acc k = trials_loop ?tr n (t + 1) (bump out acc) k'"
    using lt tp by (subst trials_loop.simps) simp
  from Suc.IH [OF m h', of "bump out acc" k'] fr nx show ?case
    unfolding st pu by auto
qed

lemma simulateEquity_st_spec:
  fixes s :: store
  assumes "hero < next_ref s" and "board < next_ref s"
  shows "fst (simulateEquity_st solve rnd k players hero board n s)
           = fst (simulateEquity solve rnd k players (cells s hero) (cells s board) n)
         \<and> fst (snd (simulateEquity_st solve rnd k players hero board n s))
           = snd (simulateEquity solve rnd k players (cells s hero) (cells s board) n)
         \<and> (\<forall>r < next_ref s. cells (snd (snd (simulateEquity_st solve rnd k players hero board n s))) r
               = cells s r)
         \<and> next_ref s \<le> next_ref (snd (snd (simulateEquity_st solve rnd k players hero board n s)))"
proof (cases "valid_request players (cells s hero) (cells s board)")
  case False
  from simulateEquity_invalid [OF False, of solve rnd k n]
  obtain e where e: "simulateEquity solve rnd k players (cells s hero) (cells s board) n = (Inl e, k)"
    by blast
  then have "simulateEquity_st solve rnd k players hero board n s = (Inl e, k, s)"
    unfolding simulateEquity_def simulateEquity_st_def Let_def
    by (simp split: if_splits prod.splits)
  with e show ?thesis by simp
next
  case True
  let ?K = "set (filter truthy (cells s hero @ cells s board))"
  from True have d: "distinct (filter truthy (cells s hero @ cells s board))"
    and p: "\<not> (players < 2 \<or> players > 10)"
    and t: "\<not> (\<not> truthy (js_get (cells s hero) 0) \<or> \<not> truthy (js_get (cells s hero) 1))"
    unfolding valid_request_def by auto
  have st: "simulateEquity_st solve rnd k players hero board n s =
           (case trials_loop_st (trial_st solve players hero board ?K rnd) n 0 (0, 0, 0) k s of
              (c, k', s') \<Rightarrow> (Inr (rates c n), k', s'))"
    using d p t unfolding simulateEquity_st_def Let_def dup_check
    by (simp only: if_False if_True simp_thms)
  have pu: "simulateEquity solve rnd k players (cells s hero) (cells s board) n =
           (case trials_loop (trial solve players (cells s hero) (cells s board) ?K rnd) n 0 (0, 0, 0) k of
              (c, k') \<Rightarrow> (Inr (rates c n), k'))"
    using d p t unfolding simulateEquity_def run_trials_def Let_def dup_check
    by (simp only: if_False if_True simp_thms)
  from trials_loop_st_spec [OF refl refl refl assms, of solve players ?K rnd n 0 "(0, 0, 0)" k]
  show ?thesis
    unfolding st pu by (simp add: split_beta)
qed

text \<open>
  C10. \<^verbatim>\<open>simulateEquity\<close> does not change its inputs: whether it throws or returns, the
  caller's hero array and board array, and every array that existed before the call, hold
  afterwards what they held before. The trials write only the deck copy and the board
  copy they allocate. The result is that of the simulation on the contents of the two
  arrays.
\<close>

theorem simulateEquity_keeps_inputs:
  fixes s :: store
  assumes "hero < next_ref s" and "board < next_ref s"
  shows "\<exists>out k' s'.
           simulateEquity_st solve rnd k players hero board n s = (out, k', s')
           \<and> cells s' hero = cells s hero
           \<and> cells s' board = cells s board
           \<and> (\<forall>r < next_ref s. cells s' r = cells s r)
           \<and> simulateEquity solve rnd k players (cells s hero) (cells s board) n = (out, k')"
proof -
  obtain out k' s' where st: "simulateEquity_st solve rnd k players hero board n s = (out, k', s')"
    by (metis prod.exhaust)
  from simulateEquity_st_spec [OF assms, of solve rnd k players n] st
  have pu: "simulateEquity solve rnd k players (cells s hero) (cells s board) n = (out, k')"
    and fr: "\<forall>r < next_ref s. cells s' r = cells s r"
    by (simp_all add: prod_eq_iff)
  from fr assms have "cells s' hero = cells s hero" "cells s' board = cells s board"
    by simp_all
  with st pu fr show ?thesis by blast
qed

theorem simulateEquity_keeps_inputs_witness:
  "(0::nat) < next_ref \<lparr>cells = (\<lambda>r. [])(0 := [Str ''As'', Str ''Ac''],
                                  1 := [Str ''Kd'', Str '''', Str '''', Str '''', Str '''']), next_ref = 2\<rparr>
   \<and> (1::nat) < next_ref \<lparr>cells = (\<lambda>r. [])(0 := [Str ''As'', Str ''Ac''],
                                  1 := [Str ''Kd'', Str '''', Str '''', Str '''', Str '''']), next_ref = 2\<rparr>
   \<and> (\<exists>out k' s'.
         simulateEquity_st (\<lambda>cs. length cs) (\<lambda>k. 0) 0 2 0 1 1000
           \<lparr>cells = (\<lambda>r. [])(0 := [Str ''As'', Str ''Ac''],
                              1 := [Str ''Kd'', Str '''', Str '''', Str '''', Str '''']), next_ref = 2\<rparr>
           = (out, k', s')
         \<and> cells s' 0 = [Str ''As'', Str ''Ac'']
         \<and> cells s' 1 = [Str ''Kd'', Str '''', Str '''', Str '''', Str ''''])"
proof -
  let ?S = "\<lparr>cells = (\<lambda>r. [])(0 := [Str ''As'', Str ''Ac''],
                              1 := [Str ''Kd'', Str '''', Str '''', Str '''', Str '''']), next_ref = 2\<rparr>"
  have h: "(0::nat) < next_ref ?S" and b: "(1::nat) < next_ref ?S"
    by simp_all
  from simulateEquity_keeps_inputs [OF h b, of "\<lambda>cs. length cs" "\<lambda>k. 0" 0 2 1000]
  obtain out k' s' where
    "simulateEquity_st (\<lambda>cs. length cs) (\<lambda>k. 0) 0 2 0 1 1000 ?S = (out, k', s')"
    and "cells s' 0 = cells ?S 0" and "cells s' 1 = cells ?S 1"
    by blast
  then have "simulateEquity_st (\<lambda>cs. length cs) (\<lambda>k. 0) 0 2 0 1 1000 ?S = (out, k', s')
         \<and> cells s' 0 = [Str ''As'', Str ''Ac'']
         \<and> cells s' 1 = [Str ''Kd'', Str '''', Str '''', Str '''', Str '''']"
    by simp
  with h b show ?thesis by blast
qed

end
